theory Spec2Isabelle
  imports Main "HOL-Library.Word"
begin

section \<open>FileVault: content-addressed file deduplication\<close>

text \<open>
  A shallow embedding of \<^verbatim>\<open>backend/files/models.py\<close> and
  \<^verbatim>\<open>backend/files/views.py\<close>. The table of \<^verbatim>\<open>File\<close> rows is a list, the
  media storage an association list from locators to bytes, and every exception the views
  can raise is a value of \<open>error\<close>.
\<close>

subsection \<open>Exceptions\<close>

datatype error =
    IOError
  | ValueError
  | TypeError
  | AttributeError
  | IntegrityError
  | ProtectedError
  | DoesNotExist
  | MultipleObjectsReturned
  | TransactionManagementError
  | ValidationError "(string \<times> string) list"
  | PermissionDenied string
  | SuspiciousFileOperation
  | Http404

subsection \<open>Byte streams and \<^verbatim>\<open>compute_file_hash\<close>\<close>

type_synonym bytes = "8 word list"

text \<open>
  A file object: its bytes, the read position (\<^verbatim>\<open>tell()\<close>; \<^verbatim>\<open>seek\<close> may put it past
  the end) and, for a device that fails, the offset of a byte that cannot be read:
  a \<^verbatim>\<open>read\<close> whose chunk would cover that offset raises.
\<close>

record stream =
  content :: bytes
  pos :: nat
  fault :: "nat option"

definition seek :: "stream \<Rightarrow> nat \<Rightarrow> stream" where
  "seek f p = f\<lparr>pos := p\<rparr>"

text \<open>
  \<^verbatim>\<open>file_obj.read(n)\<close>: at most \<open>n\<close> bytes from the position on, all the rest when
  \<open>n\<close> is negative, and the position moves past what was read.
\<close>

definition read :: "stream \<Rightarrow> int \<Rightarrow> error + (bytes \<times> stream)" where
  "read f n =
     (let rest = drop (pos f) (content f);
          chunk = (if n < 0 then rest else take (nat n) rest)
      in case fault f of
           None \<Rightarrow> Inr (chunk, f\<lparr>pos := pos f + length chunk\<rparr>)
         | Some k \<Rightarrow>
             if pos f \<le> k \<and> k < pos f + length chunk then Inl IOError
             else Inr (chunk, f\<lparr>pos := pos f + length chunk\<rparr>))"

text \<open>
  The \<^verbatim>\<open>while True\<close> loop of \<^verbatim>\<open>compute_file_hash\<close>. The state of the
  \<^verbatim>\<open>hashlib.sha256()\<close> object is the message fed to it so far: \<^verbatim>\<open>update(chunk)\<close>
  appends, and \<^verbatim>\<open>hexdigest()\<close> is a function \<open>H\<close> of the whole message.
\<close>

function hash_loop :: "stream \<Rightarrow> int \<Rightarrow> bytes \<Rightarrow> (error + bytes) \<times> stream" where
  "hash_loop f chunk_size msg =
     (case read f chunk_size of
        Inl e \<Rightarrow> (Inl e, f)
      | Inr (chunk, f') \<Rightarrow>
          if chunk = [] then (Inr msg, f')
          else hash_loop f' chunk_size (msg @ chunk))"
  by pat_completeness auto
termination
proof (relation "measure (\<lambda>(f, n, msg). length (content f) - pos f)")
  show "wf (measure (\<lambda>(f, n, msg). length (content f) - pos f))"
    by simp
next
  fix f :: stream and chunk_size :: int and msg :: bytes and x2 chunk f'
  assume r: "read f chunk_size = Inr x2" and x: "(chunk, f') = x2" and ne: "chunk \<noteq> []"
  from r x have c: "content f' = content f" and p: "pos f' = pos f + length chunk"
    and l: "length chunk \<le> length (content f) - pos f"
    by (auto simp: read_def Let_def split: option.splits if_splits)
  from ne have "0 < length chunk" by simp
  with c p l have "length (content f') - pos f' < length (content f) - pos f"
    by arith
  then show "((f', chunk_size, msg @ chunk), (f, chunk_size, msg))
      \<in> measure (\<lambda>(f, n, msg). length (content f) - pos f)"
    by simp
qed

text \<open>
  \<^verbatim>\<open>compute_file_hash(file_obj, chunk_size=8192)\<close>: remember the position, rewind, hash
  chunk by chunk, and restore the position in the \<^verbatim>\<open>finally\<close> clause, also when a
  read raised. The result is the digest (or the exception) and the file object afterwards.
\<close>

definition compute_file_hash ::
  "(bytes \<Rightarrow> string) \<Rightarrow> stream \<Rightarrow> int \<Rightarrow> (error + string) \<times> stream" where
  "compute_file_hash H file_obj chunk_size =
     (let original_position = pos file_obj in
      case hash_loop (seek file_obj 0) chunk_size [] of
        (Inl e, f') \<Rightarrow> (Inl e, seek f' original_position)
      | (Inr msg, f') \<Rightarrow> (Inr (H msg), seek f' original_position))"

subsection \<open>The \<^verbatim>\<open>File\<close> model\<close>

text \<open>
  \<^verbatim>\<open>uuid.uuid4()\<close> is a supply of unused identifiers: the state holds the next one.
  The same supply gives the random strings of the storage. A blob locator
  \<open>Upload u ext\<close> stands for the storage name \<^verbatim>\<open>uploads/<u>.<ext>\<close> built by
  \<^verbatim>\<open>file_upload_path\<close>, where \<^verbatim>\<open>str(u)\<close> has 36 characters. \<open>Shortened u k r ext\<close>
  stands for \<^verbatim>\<open>uploads/<the first k characters of u>_<r>.<ext>\<close>, the alternative
  name the storage builds, with a random string \<open>r\<close> of 7 characters, when the first
  name is too long. \<open>uuid_of\<close> is the last identifier drawn for a name.
\<close>

datatype locator = Upload nat string | Shortened nat nat nat string

fun uuid_of :: "locator \<Rightarrow> nat" where
  "uuid_of (Upload u ext) = u"
| "uuid_of (Shortened u k r ext) = r"

text \<open>\<^verbatim>\<open>filename.split('.')[-1]\<close>: what follows the last dot, the whole name without one.\<close>

definition extension :: "string \<Rightarrow> string" where
  "extension filename = rev (takeWhile (\<lambda>c. c \<noteq> CHR ''.'') (rev filename))"

definition file_upload_path :: "nat \<Rightarrow> string \<Rightarrow> locator" where
  "file_upload_path u filename = Upload u (extension filename)"

text \<open>\<^verbatim>\<open>len(name)\<close> of the storage name a locator stands for.\<close>

fun name_length :: "locator \<Rightarrow> nat" where
  "name_length (Upload u ext) = 8 + 36 + 1 + length ext"
| "name_length (Shortened u k r ext) = 8 + (k + 1 + 7) + 1 + length ext"

text \<open>
  One row of the table. \<open>file_field\<close> is the name held by the \<^verbatim>\<open>FileField\<close> \<^verbatim>\<open>file\<close>
  (\<open>None\<close> for the empty name), \<open>content_hash\<close> and \<open>referenced_file\<close> are nullable.
\<close>

record file_rec =
  id_pk :: nat
  file_field :: "locator option"
  original_filename :: string
  file_type :: string
  size_bytes :: int
  uploaded_at :: int
  content_hash :: "string option"
  is_duplicate :: bool
  reference_count :: int
  referenced_file :: "nat option"

text \<open>
  The persistent state: the table in insertion order, the media storage, and the
  identifier supply.
\<close>

record state =
  rows :: "file_rec list"
  storage :: "(locator \<times> bytes) list"
  next_uuid :: nat

text \<open>\<^verbatim>\<open>Meta.ordering = ['-uploaded_at']\<close>: every queryset is read newest first.\<close>

definition objects_all :: "file_rec list \<Rightarrow> file_rec list" where
  "objects_all table = sort_key (\<lambda>r. - uploaded_at r) table"

subsection \<open>Queries inside \<^verbatim>\<open>transaction.atomic()\<close>\<close>

text \<open>
  A database connection inside an atomic block is the state together with Django's
  \<^verbatim>\<open>needs_rollback\<close> flag. \<^verbatim>\<open>Model.save()\<close>, \<^verbatim>\<open>objects.create()\<close> and
  \<^verbatim>\<open>QuerySet.update()\<close> run under \<^verbatim>\<open>mark_for_rollback_on_error\<close>: when the
  statement raises inside an atomic block the flag is set, and from then on every query
  of the block raises \<^verbatim>\<open>TransactionManagementError\<close>
  (\<^verbatim>\<open>validate_no_broken_transaction\<close>) until the block is left.
\<close>

type_synonym conn = "state \<times> bool"

type_synonym 'a tx = "conn \<Rightarrow> (error + 'a) \<times> conn"

definition ok :: "'a \<Rightarrow> 'a tx" where
  "ok v c = (Inr v, c)"

definition raise :: "error \<Rightarrow> 'a tx" where
  "raise e c = (Inl e, c)"

definition then_do :: "'a tx \<Rightarrow> ('a \<Rightarrow> 'b tx) \<Rightarrow> 'b tx" where
  "then_do m k c = (case m c of (Inl e, c') \<Rightarrow> (Inl e, c') | (Inr v, c') \<Rightarrow> k v c')"

text \<open>\<^verbatim>\<open>try: m except E: handler\<close>, for the exceptions \<open>E\<close> that satisfy \<open>catches\<close>.\<close>

definition try_except :: "'a tx \<Rightarrow> (error \<Rightarrow> bool) \<Rightarrow> 'a tx \<Rightarrow> 'a tx" where
  "try_except m catches handler c =
     (case m c of
        (Inl e, c') \<Rightarrow> if catches e then handler c' else (Inl e, c')
      | (Inr v, c') \<Rightarrow> (Inr v, c'))"

text \<open>
  \<^verbatim>\<open>with transaction.atomic():\<close> as the outermost block. The flag is reset on entry.
  Leaving the block by an exception, or with the flag set, rolls the table back; what was
  written to the media storage and the identifiers drawn are not part of the transaction.
\<close>

definition atomic :: "'a tx \<Rightarrow> state \<Rightarrow> (error + 'a) \<times> state" where
  "atomic block s =
     (case block (s, False) of
        (Inl e, (s', nr)) \<Rightarrow> (Inl e, s'\<lparr>rows := rows s\<rparr>)
      | (Inr v, (s', nr)) \<Rightarrow> (Inr v, if nr then s'\<lparr>rows := rows s\<rparr> else s'))"

definition uuid4 :: "nat tx" where
  "uuid4 c = (case c of (s, nr) \<Rightarrow> (Inr (next_uuid s), (s\<lparr>next_uuid := Suc (next_uuid s)\<rparr>, nr)))"

text \<open>
  The constraints an \<^verbatim>\<open>INSERT\<close> checks: the primary key, \<^verbatim>\<open>unique=True\<close> on
  \<open>content_hash\<close> (nulls never collide), the check of \<^verbatim>\<open>PositiveIntegerField\<close>, and
  the foreign key \<open>referenced_file\<close>.
\<close>

definition violates :: "file_rec list \<Rightarrow> file_rec \<Rightarrow> bool" where
  "violates table r \<longleftrightarrow>
     id_pk r \<in> id_pk ` set table
     \<or> (content_hash r \<noteq> None \<and> content_hash r \<in> content_hash ` set table)
     \<or> reference_count r < 0
     \<or> (case referenced_file r of None \<Rightarrow> False | Some i \<Rightarrow> i \<notin> id_pk ` set table)"

definition insert_row :: "file_rec \<Rightarrow> file_rec tx" where
  "insert_row r c =
     (case c of (s, nr) \<Rightarrow>
        if nr then (Inl TransactionManagementError, c)
        else if violates (rows s) r then (Inl IntegrityError, (s, True))
        else (Inr r, (s\<lparr>rows := rows s @ [r]\<rparr>, nr)))"

text \<open>
  \<^verbatim>\<open>File.objects.filter(id=i).update(reference_count=F('reference_count') + d)\<close>:
  one statement, evaluated by the database on the stored value of each row it matches;
  it returns the number of rows matched.
\<close>

definition add_to_count :: "nat \<Rightarrow> int \<Rightarrow> file_rec \<Rightarrow> file_rec" where
  "add_to_count i d r =
     (if id_pk r = i then r\<lparr>reference_count := reference_count r + d\<rparr> else r)"

definition update_reference_count :: "nat \<Rightarrow> int \<Rightarrow> nat tx" where
  "update_reference_count i d c =
     (case c of (s, nr) \<Rightarrow>
        if nr then (Inl TransactionManagementError, c)
        else if \<exists>r \<in> set (rows s). id_pk r = i \<and> reference_count r + d < 0
          then (Inl IntegrityError, (s, True))
        else (Inr (length (filter (\<lambda>r. id_pk r = i) (rows s))),
              (s\<lparr>rows := map (add_to_count i d) (rows s)\<rparr>, nr)))"

text \<open>\<^verbatim>\<open>File.objects.filter(content_hash=h).first()\<close>, on the table the query sees.\<close>

definition filter_first :: "file_rec list \<Rightarrow> string \<Rightarrow> file_rec option tx" where
  "filter_first table h c =
     (if snd c then (Inl TransactionManagementError, c)
      else (case filter (\<lambda>r. content_hash r = Some h) (objects_all table) of
              [] \<Rightarrow> (Inr None, c)
            | r # _ \<Rightarrow> (Inr (Some r), c)))"

text \<open>\<^verbatim>\<open>File.objects.get(content_hash=h)\<close>.\<close>

definition objects_get :: "string \<Rightarrow> file_rec tx" where
  "objects_get h c =
     (if snd c then (Inl TransactionManagementError, c)
      else (case filter (\<lambda>r. content_hash r = Some h) (rows (fst c)) of
              [] \<Rightarrow> (Inl DoesNotExist, c)
            | [r] \<Rightarrow> (Inr r, c)
            | _ \<Rightarrow> (Inl MultipleObjectsReturned, c)))"

text \<open>
  A row by primary key: \<^verbatim>\<open>refresh_from_db()\<close> and the lazy load of
  \<^verbatim>\<open>instance.referenced_file\<close>.
\<close>

definition get_by_pk :: "nat \<Rightarrow> file_rec tx" where
  "get_by_pk i c =
     (if snd c then (Inl TransactionManagementError, c)
      else (case filter (\<lambda>r. id_pk r = i) (rows (fst c)) of
              [] \<Rightarrow> (Inl DoesNotExist, c)
            | r # _ \<Rightarrow> (Inr r, c)))"

text \<open>
  \<^verbatim>\<open>instance.save()\<close> of a row that is already stored: an \<^verbatim>\<open>UPDATE\<close> of all its
  columns, and an \<^verbatim>\<open>INSERT\<close> when no row has its key.
\<close>

definition save_row :: "file_rec \<Rightarrow> file_rec tx" where
  "save_row r c =
     (case c of (s, nr) \<Rightarrow>
        if nr then (Inl TransactionManagementError, c)
        else if id_pk r \<in> id_pk ` set (rows s)
          then (Inr r, (s\<lparr>rows := map (\<lambda>x. if id_pk x = id_pk r then r else x) (rows s)\<rparr>, nr))
        else insert_row r c)"

text \<open>
  \<^verbatim>\<open>instance.delete()\<close>. \<^verbatim>\<open>on_delete=models.PROTECT\<close>: deleting a row that another
  row references raises \<^verbatim>\<open>ProtectedError\<close>.
\<close>

definition delete_row :: "nat \<Rightarrow> unit tx" where
  "delete_row i c =
     (case c of (s, nr) \<Rightarrow>
        if nr then (Inl TransactionManagementError, c)
        else if \<exists>r \<in> set (rows s). referenced_file r = Some i then (Inl ProtectedError, c)
        else (Inr (), (s\<lparr>rows := filter (\<lambda>r. id_pk r \<noteq> i) (rows s)\<rparr>, nr)))"

text \<open>
  The media storage is outside the transaction.

  \<^verbatim>\<open>Storage.get_available_name(name, max_length)\<close>, for a name that no stored file has
  (its identifier is new). A name within \<open>max_length\<close> is kept. For a longer one the
  storage builds the alternative name (root, underscore, 7 random characters, extension)
  and cuts from the end of the root what that name has too much; when nothing of the root
  is left it raises \<^verbatim>\<open>SuspiciousFileOperation\<close>, otherwise it builds the alternative
  name again, from the shortened root.
\<close>

definition get_available_name :: "locator \<Rightarrow> nat \<Rightarrow> locator tx" where
  "get_available_name l max_length =
     (case l of
        Shortened u k r ext \<Rightarrow> ok l
      | Upload u ext \<Rightarrow>
          if name_length l \<le> max_length then ok l
          else then_do uuid4 (\<lambda>r0.
                 let truncation = name_length (Shortened u 36 r0 ext) - max_length in
                 if 36 \<le> truncation then raise SuspiciousFileOperation
                 else then_do uuid4 (\<lambda>r. ok (Shortened u (36 - truncation) r ext))))"

definition storage_write :: "locator \<Rightarrow> bytes \<Rightarrow> unit tx" where
  "storage_write l b c =
     (case c of (s, nr) \<Rightarrow> (Inr (), (s\<lparr>storage := (l, b) # storage s\<rparr>, nr)))"

text \<open>
  \<^verbatim>\<open>Storage.save(name, content, max_length)\<close>: the bytes are written under the
  available name, which is returned.
\<close>

definition storage_save :: "locator \<Rightarrow> bytes \<Rightarrow> nat \<Rightarrow> locator tx" where
  "storage_save l b max_length =
     then_do (get_available_name l max_length) (\<lambda>available.
     then_do (storage_write available b) (\<lambda>_. ok available))"

definition storage_delete :: "locator \<Rightarrow> unit tx" where
  "storage_delete l c =
     (case c of (s, nr) \<Rightarrow>
        (Inr (), (s\<lparr>storage := filter (\<lambda>kv. fst kv \<noteq> l) (storage s)\<rparr>, nr)))"

subsection \<open>Uploads and the serializer\<close>

text \<open>
  The uploaded file of a request (\<^verbatim>\<open>request.FILES.get('file')\<close>): its name, declared
  content type and bytes; \<^verbatim>\<open>file_obj.size\<close> is the number of bytes. The name is the
  base name that \<^verbatim>\<open>UploadedFile\<close> keeps: it has no path separator.
\<close>

record uploaded_file =
  name :: string
  content_type :: string
  file_body :: stream

definition size_of :: "uploaded_file \<Rightarrow> int" where
  "size_of file_obj = int (length (content (file_body file_obj)))"

definition is_space :: "char \<Rightarrow> bool" where
  "is_space ch \<longleftrightarrow> (of_char ch :: nat) \<in> {9, 10, 11, 12, 13, 28, 29, 30, 31, 32}"

definition strip :: "string \<Rightarrow> string" where
  "strip t = rev (dropWhile is_space (rev (dropWhile is_space t)))"

text \<open>
  \<^verbatim>\<open>serializer.is_valid(raise_exception=True)\<close> on
  \<^verbatim>\<open>{'file', 'original_filename', 'file_type', 'size'}\<close>. \<^verbatim>\<open>FileSerializer\<close> is a
  \<^verbatim>\<open>ModelSerializer\<close>, so its fields carry the limits declared in
  \<^verbatim>\<open>models.py\<close>: the \<^verbatim>\<open>FileField\<close> refuses a file without bytes and a name longer
  than its \<^verbatim>\<open>max_length\<close> (100, the default); a \<^verbatim>\<open>CharField\<close> trims its value
  and refuses a blank one, a NUL character and a value longer than \<^verbatim>\<open>max_length\<close>;
  a \<^verbatim>\<open>BigIntegerField\<close> refuses a value outside 64 bits. Each refusal is an entry
  (field, error code) of the \<^verbatim>\<open>ValidationError\<close>; the result otherwise is the
  validated \<open>original_filename\<close> and \<open>file_type\<close>.
\<close>

definition char_field_errors :: "string \<Rightarrow> nat \<Rightarrow> string \<Rightarrow> (string \<times> string) list" where
  "char_field_errors field max_length v =
     (if strip v = [] then [(field, ''blank'')]
      else (if max_length < length (strip v) then [(field, ''max_length'')] else [])
         @ (if CHR 0x00 \<in> set (strip v) then [(field, ''null_characters_not_allowed'')] else []))"

definition file_field_errors :: "uploaded_file \<Rightarrow> (string \<times> string) list" where
  "file_field_errors file_obj =
     (if name file_obj = [] then [(''file'', ''no_name'')]
      else if size_of file_obj = 0 then [(''file'', ''empty'')]
      else if 100 < length (name file_obj) then [(''file'', ''max_length'')]
      else [])"

definition size_field_errors :: "int \<Rightarrow> (string \<times> string) list" where
  "size_field_errors n =
     (if 9223372036854775807 < n then [(''size'', ''max_value'')]
      else if n < - 9223372036854775808 then [(''size'', ''min_value'')]
      else [])"

definition is_valid :: "uploaded_file \<Rightarrow> error + (string \<times> string)" where
  "is_valid file_obj =
     (let errors = file_field_errors file_obj
            @ char_field_errors ''original_filename'' 255 (name file_obj)
            @ char_field_errors ''file_type'' 100 (content_type file_obj)
            @ size_field_errors (size_of file_obj)
      in if errors = [] then Inr (strip (name file_obj), strip (content_type file_obj))
         else Inl (ValidationError errors))"

text \<open>
  \<^verbatim>\<open>FileField.generate_filename\<close>: the name \<^verbatim>\<open>upload_to\<close> gives, made valid by the
  storage (\<^verbatim>\<open>get_valid_filename\<close>): white space at the end goes, a space becomes an
  underscore, and every character that is no letter, digit, underscore, hyphen or dot is
  dropped. The identifier has only such characters, so this changes the extension only.
  Among the ASCII characters the letters and digits are those of \<open>word_char\<close>; a
  character outside ASCII is kept, as a letter is.
\<close>

definition word_char :: "char \<Rightarrow> bool" where
  "word_char ch \<longleftrightarrow>
     (let n = (of_char ch :: nat)
      in (48 \<le> n \<and> n \<le> 57) \<or> (65 \<le> n \<and> n \<le> 90) \<or> (97 \<le> n \<and> n \<le> 122)
         \<or> n = 95 \<or> n = 45 \<or> n = 46 \<or> 128 \<le> n)"

definition valid_extension :: "string \<Rightarrow> string" where
  "valid_extension ext =
     filter word_char
       (map (\<lambda>ch. if ch = CHR '' '' then CHR ''_'' else ch)
          (rev (dropWhile is_space (rev ext))))"

definition generate_filename :: "nat \<Rightarrow> string \<Rightarrow> locator" where
  "generate_filename u filename =
     (case file_upload_path u filename of
        Upload u' ext \<Rightarrow> Upload u' (valid_extension ext)
      | Shortened u' k r ext \<Rightarrow> Shortened u' k r ext)"

text \<open>
  \<^verbatim>\<open>serializer.save(content_hash=..., is_duplicate=False, reference_count=1)\<close>. The
  model instance draws its \<open>id\<close>; saving it first lets the \<^verbatim>\<open>FileField\<close> write the
  upload to the storage, under the name \<^verbatim>\<open>generate_filename\<close> gives (with a second
  identifier) and within the \<^verbatim>\<open>max_length\<close> of the field (100, the default of
  \<^verbatim>\<open>models.FileField\<close>), and then inserts the row with the name the storage used. The
  storage writes all the bytes of the upload, from the start.
\<close>

definition serializer_save ::
  "int \<Rightarrow> uploaded_file \<Rightarrow> string \<times> string \<Rightarrow> string \<Rightarrow> file_rec tx" where
  "serializer_save now file_obj validated h =
     then_do uuid4 (\<lambda>new_id.
     then_do uuid4 (\<lambda>u.
     then_do (storage_save (generate_filename u (name file_obj))
                (content (file_body file_obj)) 100) (\<lambda>stored.
     insert_row
       \<lparr>id_pk = new_id,
        file_field = Some stored,
        original_filename = fst validated,
        file_type = snd validated,
        size_bytes = size_of file_obj,
        uploaded_at = now,
        content_hash = Some h,
        is_duplicate = False,
        reference_count = 1,
        referenced_file = None\<rparr>)))"

subsection \<open>\<^verbatim>\<open>FileViewSet.create\<close>\<close>

datatype body = Data file_rec | Detail string string | Empty

datatype response = Response nat body

text \<open>
  Lines 114 to 134, repeated at 160 to 179: the duplicate row shares the stored file of
  \<open>existing_file\<close> by name (nothing is written to the storage), the count of
  \<open>existing_file\<close> is incremented in the database, and the duplicate is returned.
\<close>

definition link_duplicate :: "int \<Rightarrow> uploaded_file \<Rightarrow> file_rec \<Rightarrow> response tx" where
  "link_duplicate now file_obj existing_file =
     then_do uuid4 (\<lambda>new_id.
     then_do (insert_row
       \<lparr>id_pk = new_id,
        file_field = file_field existing_file,
        original_filename = name file_obj,
        file_type = content_type file_obj,
        size_bytes = size_of file_obj,
        uploaded_at = now,
        content_hash = None,
        is_duplicate = True,
        reference_count = 1,
        referenced_file = Some (id_pk existing_file)\<rparr>) (\<lambda>duplicate_file.
     then_do (update_reference_count (id_pk existing_file) 1) (\<lambda>_.
     then_do (get_by_pk (id_pk existing_file)) (\<lambda>_.
     ok (Response 201 (Data duplicate_file))))))"

text \<open>
  The body of the \<^verbatim>\<open>with transaction.atomic()\<close> block of \<^verbatim>\<open>create\<close>. \<open>seen\<close> is
  the table as the lookup of line 109 sees it. Another request may commit between that
  lookup and the save of line 147, so the statements after the lookup run on the table of
  the connection; a request that runs alone has \<open>seen\<close> equal to that table.
\<close>

definition create_block ::
  "int \<Rightarrow> file_rec list \<Rightarrow> uploaded_file \<Rightarrow> string \<Rightarrow> response tx" where
  "create_block now seen file_obj h =
     then_do (filter_first seen h) (\<lambda>existing_file.
       case existing_file of
         Some e \<Rightarrow> link_duplicate now file_obj e
       | None \<Rightarrow>
           try_except
             (case is_valid file_obj of
                Inl e \<Rightarrow> raise e
              | Inr validated \<Rightarrow>
                  then_do (serializer_save now file_obj validated h) (\<lambda>saved.
                  ok (Response 201 (Data saved))))
             (\<lambda>e. e = IntegrityError \<or> e = ProtectedError)
             (then_do (objects_get h) (\<lambda>e. link_duplicate now file_obj e)))"

text \<open>
  \<^verbatim>\<open>create\<close>: \<open>H\<close> is SHA-256 as a hexadecimal digest, \<open>now\<close> the time that
  \<^verbatim>\<open>auto_now_add\<close> stamps on an inserted row. A request without a file (or with a
  file object that is falsy: no name) is answered 400.
\<close>

definition create ::
  "(bytes \<Rightarrow> string) \<Rightarrow> int \<Rightarrow> file_rec list \<Rightarrow> state \<Rightarrow> uploaded_file option
     \<Rightarrow> (error + response) \<times> state" where
  "create H now seen s req =
     (case req of
        None \<Rightarrow> (Inr (Response 400 (Detail ''error'' ''No file provided'')), s)
      | Some file_obj \<Rightarrow>
          if name file_obj = [] then (Inr (Response 400 (Detail ''error'' ''No file provided'')), s)
          else (case compute_file_hash H (file_body file_obj) 8192 of
                  (Inl e, fb) \<Rightarrow> (Inl e, s)
                | (Inr h, fb) \<Rightarrow>
                    atomic (create_block now seen (file_obj\<lparr>file_body := fb\<rparr>) h) s))"

subsection \<open>\<^verbatim>\<open>FileViewSet.destroy\<close>\<close>

text \<open>\<^verbatim>\<open>self.get_object()\<close>, for a request without query parameters.\<close>

definition get_object :: "state \<Rightarrow> nat \<Rightarrow> error + file_rec" where
  "get_object s pk =
     (case filter (\<lambda>r. id_pk r = pk) (rows s) of
        [] \<Rightarrow> Inl Http404
      | r # _ \<Rightarrow> Inr r)"

text \<open>
  \<^verbatim>\<open>instance.file.delete()\<close>: the stored file is removed, the name of the field
  cleared, and (\<^verbatim>\<open>save=True\<close>) the instance saved.
\<close>

definition fieldfile_delete :: "file_rec \<Rightarrow> locator \<Rightarrow> file_rec tx" where
  "fieldfile_delete instance l =
     then_do (storage_delete l) (\<lambda>_. save_row (instance\<lparr>file_field := None\<rparr>))"

definition destroy_block :: "file_rec \<Rightarrow> response tx" where
  "destroy_block instance =
     (if is_duplicate instance then
        then_do
          (case referenced_file instance of
             None \<Rightarrow> ok 0
           | Some i \<Rightarrow>
               then_do (get_by_pk i) (\<lambda>original.
               update_reference_count (id_pk original) (- 1)))
          (\<lambda>_. then_do (delete_row (id_pk instance)) (\<lambda>_. ok (Response 204 Empty)))
      else if 1 < reference_count instance then
        raise (PermissionDenied
          ''Cannot delete original file that has duplicates. Delete duplicates first.'')
      else
        then_do
          (case file_field instance of
             None \<Rightarrow> ok instance
           | Some l \<Rightarrow> fieldfile_delete instance l)
          (\<lambda>_. then_do (delete_row (id_pk instance)) (\<lambda>_. ok (Response 204 Empty))))"

definition destroy :: "state \<Rightarrow> nat \<Rightarrow> (error + response) \<times> state" where
  "destroy s pk =
     (case get_object s pk of
        Inl e \<Rightarrow> (Inl e, s)
      | Inr instance \<Rightarrow> atomic (destroy_block instance) s)"

subsection \<open>\<^verbatim>\<open>FileViewSet.get_queryset\<close>\<close>

text \<open>
  The library functions the listing calls, as parameters: \<^verbatim>\<open>int(s)\<close> (\<open>None\<close> when it
  raises \<^verbatim>\<open>ValueError\<close>), Django's \<^verbatim>\<open>parse_datetime\<close> and \<^verbatim>\<open>parse_date\<close>
  (each returns \<^verbatim>\<open>None\<close> for a string that is not well formatted, and raises
  \<^verbatim>\<open>ValueError\<close> for one that is well formatted but no valid date), and
  \<^verbatim>\<open>timezone.make_aware\<close>. An instant is a number of microseconds, a date a number of
  days.
\<close>

datatype datetime = Naive int | Aware int

datatype 'a parsed = RaisesValueError | ReturnsNone | Parsed 'a

record pylib =
  int_of :: "string \<Rightarrow> int option"
  parse_datetime :: "string \<Rightarrow> datetime parsed"
  parse_date :: "string \<Rightarrow> int parsed"
  make_aware :: "int \<Rightarrow> int"

text \<open>\<^verbatim>\<open>query_params.get(key)\<close>: the last value given for the key.\<close>

definition qp_get :: "(string \<times> string) list \<Rightarrow> string \<Rightarrow> string option" where
  "qp_get query_params key =
     (case filter (\<lambda>kv. fst kv = key) query_params of
        [] \<Rightarrow> None
      | kv # kvs \<Rightarrow> Some (snd (last (kv # kvs))))"

definition to_lower :: "char \<Rightarrow> char" where
  "to_lower ch =
     (let n = (of_char ch :: nat) in if 65 \<le> n \<and> n \<le> 90 then char_of (n + 32) else ch)"

primrec infix_of :: "string \<Rightarrow> string \<Rightarrow> bool" where
  "infix_of needle [] = (needle = [])"
| "infix_of needle (ch # rest) =
     (take (length needle) (ch # rest) = needle \<or> infix_of needle rest)"

text \<open>The lookup \<^verbatim>\<open>original_filename__icontains\<close>.\<close>

definition icontains :: "string \<Rightarrow> string \<Rightarrow> bool" where
  "icontains v field_value = infix_of (map to_lower v) (map to_lower field_value)"

definition filter_search :: "(string \<times> string) list \<Rightarrow> file_rec list \<Rightarrow> file_rec list" where
  "filter_search query_params queryset =
     (case qp_get query_params ''search'' of
        None \<Rightarrow> queryset
      | Some search \<Rightarrow>
          if search = [] then queryset
          else filter (\<lambda>r. icontains search (original_filename r)) queryset)"

definition filter_file_type :: "(string \<times> string) list \<Rightarrow> file_rec list \<Rightarrow> file_rec list" where
  "filter_file_type query_params queryset =
     (case qp_get query_params ''file_type'' of
        None \<Rightarrow> queryset
      | Some t \<Rightarrow> if t = [] then queryset else filter (\<lambda>r. file_type r = t) queryset)"

definition filter_size_min ::
  "pylib \<Rightarrow> (string \<times> string) list \<Rightarrow> file_rec list \<Rightarrow> error + file_rec list" where
  "filter_size_min L query_params queryset =
     (case qp_get query_params ''size_min'' of
        None \<Rightarrow> Inr queryset
      | Some size_min \<Rightarrow>
          if size_min = [] then Inr queryset
          else (case int_of L size_min of
                  None \<Rightarrow> Inl (ValidationError [(''size_min'', ''Must be a valid integer'')])
                | Some size_min_int \<Rightarrow>
                    Inr (filter (\<lambda>r. size_min_int \<le> size_bytes r) queryset)))"

definition filter_size_max ::
  "pylib \<Rightarrow> (string \<times> string) list \<Rightarrow> file_rec list \<Rightarrow> error + file_rec list" where
  "filter_size_max L query_params queryset =
     (case qp_get query_params ''size_max'' of
        None \<Rightarrow> Inr queryset
      | Some size_max \<Rightarrow>
          if size_max = [] then Inr queryset
          else (case int_of L size_max of
                  None \<Rightarrow> Inl (ValidationError [(''size_max'', ''Must be a valid integer'')])
                | Some size_max_int \<Rightarrow>
                    Inr (filter (\<lambda>r. size_bytes r \<le> size_max_int) queryset)))"

text \<open>
  The body of the two \<^verbatim>\<open>try\<close> blocks on dates: the datetime first, the date as a
  fallback, combined with the time of day \<open>time_of_day\<close> (\<^verbatim>\<open>datetime.min.time()\<close> or
  \<^verbatim>\<open>datetime.max.time()\<close>); \<open>None\<close> when a \<^verbatim>\<open>ValueError\<close> is raised.
\<close>

definition parse_bound :: "pylib \<Rightarrow> int \<Rightarrow> string \<Rightarrow> int option" where
  "parse_bound L time_of_day v =
     (case parse_datetime L v of
        RaisesValueError \<Rightarrow> None
      | Parsed (Aware t) \<Rightarrow> Some t
      | Parsed (Naive t) \<Rightarrow> Some (make_aware L t)
      | ReturnsNone \<Rightarrow>
          (case parse_date L v of
             RaisesValueError \<Rightarrow> None
           | ReturnsNone \<Rightarrow> None
           | Parsed date_obj \<Rightarrow> Some (make_aware L (date_obj * 86400000000 + time_of_day))))"

definition filter_uploaded_after ::
  "pylib \<Rightarrow> (string \<times> string) list \<Rightarrow> file_rec list \<Rightarrow> error + file_rec list" where
  "filter_uploaded_after L query_params queryset =
     (case qp_get query_params ''uploaded_after'' of
        None \<Rightarrow> Inr queryset
      | Some uploaded_after \<Rightarrow>
          if uploaded_after = [] then Inr queryset
          else (case parse_bound L 0 uploaded_after of
                  None \<Rightarrow> Inl (ValidationError
                    [(''uploaded_after'', ''Must be a valid ISO 8601 date (YYYY-MM-DD)'')])
                | Some datetime_obj \<Rightarrow>
                    Inr (filter (\<lambda>r. datetime_obj \<le> uploaded_at r) queryset)))"

definition filter_uploaded_before ::
  "pylib \<Rightarrow> (string \<times> string) list \<Rightarrow> file_rec list \<Rightarrow> error + file_rec list" where
  "filter_uploaded_before L query_params queryset =
     (case qp_get query_params ''uploaded_before'' of
        None \<Rightarrow> Inr queryset
      | Some uploaded_before \<Rightarrow>
          if uploaded_before = [] then Inr queryset
          else (case parse_bound L 86399999999 uploaded_before of
                  None \<Rightarrow> Inl (ValidationError
                    [(''uploaded_before'', ''Must be a valid ISO 8601 date (YYYY-MM-DD)'')])
                | Some datetime_obj \<Rightarrow>
                    Inr (filter (\<lambda>r. uploaded_at r \<le> datetime_obj) queryset)))"

definition and_then :: "error + 'a \<Rightarrow> ('a \<Rightarrow> error + 'b) \<Rightarrow> error + 'b" where
  "and_then r k = (case r of Inl e \<Rightarrow> Inl e | Inr v \<Rightarrow> k v)"

definition get_queryset ::
  "pylib \<Rightarrow> file_rec list \<Rightarrow> (string \<times> string) list \<Rightarrow> error + file_rec list" where
  "get_queryset L table query_params =
     and_then (filter_size_min L query_params
                 (filter_file_type query_params
                    (filter_search query_params (objects_all table))))
       (\<lambda>queryset. and_then (filter_size_max L query_params queryset)
       (\<lambda>queryset. and_then (filter_uploaded_after L query_params queryset)
       (\<lambda>queryset. filter_uploaded_before L query_params queryset)))"

subsection \<open>Sequences of requests\<close>

text \<open>
  Requests served one after the other, from the empty system: each upload looks the
  digest up in the table it then writes to.
\<close>

datatype request = Ingest int "uploaded_file option" | Delete nat

definition initial :: state where
  "initial = \<lparr>rows = [], storage = [], next_uuid = 0\<rparr>"

fun step :: "(bytes \<Rightarrow> string) \<Rightarrow> state \<Rightarrow> request \<Rightarrow> state" where
  "step H s (Ingest now req) = snd (create H now (rows s) s req)"
| "step H s (Delete pk) = snd (destroy s pk)"

definition run :: "(bytes \<Rightarrow> string) \<Rightarrow> request list \<Rightarrow> state" where
  "run H requests = foldl (step H) initial requests"

subsection \<open>Invariants of the table\<close>

text \<open>The live duplicate rows that reference the row \<open>i\<close>.\<close>

definition count_dups :: "file_rec list \<Rightarrow> nat \<Rightarrow> nat" where
  "count_dups table i =
     length (filter (\<lambda>r. is_duplicate r \<and> referenced_file r = Some i) table)"

definition refcounts_ok :: "file_rec list \<Rightarrow> bool" where
  "refcounts_ok table \<longleftrightarrow>
     (\<forall>r \<in> set table.
        reference_count r =
          (if is_duplicate r then 1 else 1 + int (count_dups table (id_pk r))))"

text \<open>
  A duplicate has no digest and references an original of the table; an original
  references nothing; no two rows carry the same digest.
\<close>

definition links_ok :: "file_rec list \<Rightarrow> bool" where
  "links_ok table \<longleftrightarrow>
     (\<forall>r \<in> set table.
        if is_duplicate r
        then content_hash r = None \<and>
             (\<exists>c \<in> set table. \<not> is_duplicate c \<and> referenced_file r = Some (id_pk c))
        else referenced_file r = None)"

definition hashes_ok :: "file_rec list \<Rightarrow> bool" where
  "hashes_ok table \<longleftrightarrow>
     (\<forall>r \<in> set table. \<forall>r' \<in> set table.
        content_hash r \<noteq> None \<and> content_hash r = content_hash r' \<longrightarrow> r = r')"

text \<open>Primary keys are distinct, and no identifier in use is still in the supply.\<close>

definition ids_ok :: "state \<Rightarrow> bool" where
  "ids_ok s \<longleftrightarrow>
     distinct (map id_pk (rows s)) \<and>
     (\<forall>r \<in> set (rows s). id_pk r < next_uuid s) \<and>
     (\<forall>kv \<in> set (storage s). uuid_of (fst kv) < next_uuid s)"

definition inv :: "state \<Rightarrow> bool" where
  "inv s \<longleftrightarrow> ids_ok s \<and> links_ok (rows s) \<and> hashes_ok (rows s) \<and> refcounts_ok (rows s)"

subsection \<open>Malformed filter parameters\<close>

text \<open>
  A malformed bound, said of what the library functions answer, not of what
  \<^verbatim>\<open>get_queryset\<close> makes of it. A size bound is malformed when \<^verbatim>\<open>int\<close> raises
  \<^verbatim>\<open>ValueError\<close> on it. A date bound is malformed when \<^verbatim>\<open>parse_datetime\<close> raises
  \<^verbatim>\<open>ValueError\<close> on it, or when \<^verbatim>\<open>parse_datetime\<close> returns \<^verbatim>\<open>None\<close> and
  \<^verbatim>\<open>parse_date\<close> returns \<^verbatim>\<open>None\<close> or raises \<^verbatim>\<open>ValueError\<close>.
\<close>

definition not_a_date :: "pylib \<Rightarrow> string \<Rightarrow> bool" where
  "not_a_date L v \<longleftrightarrow>
     parse_datetime L v = RaisesValueError
     \<or> (parse_datetime L v = ReturnsNone
        \<and> (parse_date L v = RaisesValueError \<or> parse_date L v = ReturnsNone))"

definition unparsable :: "pylib \<Rightarrow> string \<Rightarrow> string \<Rightarrow> bool" where
  "unparsable L key v \<longleftrightarrow>
     (if key = ''size_min'' \<or> key = ''size_max'' then int_of L v = None
      else if key = ''uploaded_after'' \<or> key = ''uploaded_before'' then not_a_date L v
      else False)"

text \<open>
  The filter parameters of a listing that are given, not empty, and malformed, in the
  order in which \<^verbatim>\<open>get_queryset\<close> reads them; and the reason given for each.
\<close>

definition offending :: "pylib \<Rightarrow> (string \<times> string) list \<Rightarrow> string list" where
  "offending L query_params =
     filter (\<lambda>key. case qp_get query_params key of
                      None \<Rightarrow> False
                    | Some v \<Rightarrow> v \<noteq> [] \<and> unparsable L key v)
       [''size_min'', ''size_max'', ''uploaded_after'', ''uploaded_before'']"

definition reason :: "string \<Rightarrow> string" where
  "reason key =
     (if key = ''size_min'' \<or> key = ''size_max'' then ''Must be a valid integer''
      else ''Must be a valid ISO 8601 date (YYYY-MM-DD)'')"

subsection \<open>Inputs for the examples\<close>

text \<open>
  A stand-in for SHA-256 that can be run (the bytes themselves, as characters), a parser
  of plain decimal numerals for \<^verbatim>\<open>int\<close>, date parsers that know one date, and an
  upload of given name and bytes.
\<close>

definition plain_digest :: "bytes \<Rightarrow> string" where
  "plain_digest b = map (\<lambda>w. char_of (unat w)) b"

definition decimal :: "string \<Rightarrow> int option" where
  "decimal v =
     (if v \<noteq> [] \<and> list_all (\<lambda>ch. 48 \<le> (of_char ch :: nat) \<and> (of_char ch :: nat) \<le> 57) v
      then Some (foldl (\<lambda>a ch. 10 * a + int (of_char ch - 48)) 0 v)
      else None)"

definition example_lib :: pylib where
  "example_lib =
     \<lparr>int_of = decimal,
      parse_datetime = (\<lambda>v. ReturnsNone),
      parse_date = (\<lambda>v. if v = ''2024-01-15'' then Parsed 19737
                         else if v = ''2024-02-30'' then RaisesValueError else ReturnsNone),
      make_aware = (\<lambda>t. t)\<rparr>"

definition upload :: "string \<Rightarrow> bytes \<Rightarrow> uploaded_file" where
  "upload filename b =
     \<lparr>name = filename, content_type = ''text/plain'',
      file_body = \<lparr>content = b, pos = 0, fault = None\<rparr>\<rparr>"

definition example_row :: "nat \<Rightarrow> string \<Rightarrow> int \<Rightarrow> int \<Rightarrow> file_rec" where
  "example_row i filename n t =
     \<lparr>id_pk = i, file_field = Some (Upload (Suc i) ''txt''), original_filename = filename,
      file_type = ''text/plain'', size_bytes = n, uploaded_at = t, content_hash = Some filename,
      is_duplicate = False, reference_count = 1, referenced_file = None\<rparr>"

subsection \<open>Notions used in the statements\<close>

text \<open>A listing is newest first when no row is followed by one uploaded later.\<close>

definition newest_first :: "file_rec list \<Rightarrow> bool" where
  "newest_first queryset \<longleftrightarrow> sorted_wrt (\<lambda>a b. uploaded_at b \<le> uploaded_at a) queryset"

text \<open>The test of \<open>offending\<close> on one parameter.\<close>

definition given_bad :: "pylib \<Rightarrow> (string \<times> string) list \<Rightarrow> string \<Rightarrow> bool" where
  "given_bad L query_params key \<longleftrightarrow>
     (case qp_get query_params key of None \<Rightarrow> False | Some v \<Rightarrow> v \<noteq> [] \<and> unparsable L key v)"

text \<open>
  The extension of the storage name of an upload, the locator under which a first upload
  in the state \<open>s\<close> is stored when that extension has fewer than 83 characters, and the
  identifier supply afterwards.
\<close>

definition stored_extension :: "string \<Rightarrow> string" where
  "stored_extension filename = valid_extension (extension filename)"

definition stored_as :: "state \<Rightarrow> string \<Rightarrow> locator" where
  "stored_as s filename =
     (if length (stored_extension filename) \<le> 55
      then Upload (Suc (next_uuid s)) (stored_extension filename)
      else Shortened (Suc (next_uuid s)) (83 - length (stored_extension filename))
             (next_uuid s + 3) (stored_extension filename))"

definition supply_after :: "state \<Rightarrow> string \<Rightarrow> nat" where
  "supply_after s filename =
     (if length (stored_extension filename) \<le> 55 then next_uuid s + 2 else next_uuid s + 4)"

text \<open>
  The row that \<^verbatim>\<open>create\<close> inserts for a first upload, and the one it inserts for an
  upload whose digest the row \<open>existing_file\<close> already carries.
\<close>

definition canonical_row ::
  "state \<Rightarrow> int \<Rightarrow> uploaded_file \<Rightarrow> string \<times> string \<Rightarrow> string \<Rightarrow> file_rec" where
  "canonical_row s now file_obj validated h =
     \<lparr>id_pk = next_uuid s,
      file_field = Some (stored_as s (name file_obj)),
      original_filename = fst validated,
      file_type = snd validated,
      size_bytes = size_of file_obj,
      uploaded_at = now,
      content_hash = Some h,
      is_duplicate = False,
      reference_count = 1,
      referenced_file = None\<rparr>"

definition duplicate_row :: "state \<Rightarrow> int \<Rightarrow> uploaded_file \<Rightarrow> file_rec \<Rightarrow> file_rec" where
  "duplicate_row s now file_obj existing_file =
     \<lparr>id_pk = next_uuid s,
      file_field = file_field existing_file,
      original_filename = name file_obj,
      file_type = content_type file_obj,
      size_bytes = size_of file_obj,
      uploaded_at = now,
      content_hash = None,
      is_duplicate = True,
      reference_count = 1,
      referenced_file = Some (id_pk existing_file)\<rparr>"

text \<open>The part of \<open>inv\<close> that speaks of the table alone.\<close>

definition table_ok :: "file_rec list \<Rightarrow> bool" where
  "table_ok table \<longleftrightarrow>
     distinct (map id_pk table) \<and> links_ok table \<and> hashes_ok table \<and> refcounts_ok table"

text \<open>
  The system after a first upload of the bytes 1, 2, 3 at time 5 (\<open>one_file\<close>), and
  after a second upload of the same bytes at time 6 (\<open>two_files\<close>).
\<close>

definition original_a :: file_rec where
  "original_a =
     \<lparr>id_pk = 0, file_field = Some (Upload 1 ''txt''), original_filename = ''a.txt'',
      file_type = ''text/plain'', size_bytes = 3, uploaded_at = 5,
      content_hash = Some (plain_digest [1, 2, 3]), is_duplicate = False,
      reference_count = 1, referenced_file = None\<rparr>"

definition duplicate_b :: file_rec where
  "duplicate_b =
     \<lparr>id_pk = 2, file_field = Some (Upload 1 ''txt''), original_filename = ''b.txt'',
      file_type = ''text/plain'', size_bytes = 3, uploaded_at = 6,
      content_hash = None, is_duplicate = True,
      reference_count = 1, referenced_file = Some 0\<rparr>"

definition one_file :: state where
  "one_file =
     \<lparr>rows = [original_a], storage = [(Upload 1 ''txt'', [1, 2, 3])], next_uuid = 2\<rparr>"

definition two_files :: state where
  "two_files =
     \<lparr>rows = [original_a\<lparr>reference_count := 2\<rparr>, duplicate_b],
      storage = [(Upload 1 ''txt'', [1, 2, 3])], next_uuid = 3\<rparr>"

section \<open>Properties\<close>

subsection \<open>The hasher\<close>

lemma read_frame:
  "read f n = Inr (chunk, f') \<Longrightarrow> content f' = content f \<and> fault f' = fault f"
  by (auto simp: read_def Let_def split: option.splits if_splits)

lemma hash_loop_frame:
  "content (snd (hash_loop f n msg)) = content f \<and> fault (snd (hash_loop f n msg)) = fault f"
proof (induction f n msg rule: hash_loop.induct)
  case (1 f n msg)
  show ?case
  proof (cases "read f n")
    case (Inl e)
    then show ?thesis by simp
  next
    case (Inr p)
    obtain chunk f' where p: "p = (chunk, f')" by (cases p)
    with Inr have r: "read f n = Inr (chunk, f')" by simp
    show ?thesis
    proof (cases "chunk = []")
      case True
      with r read_frame [OF r] show ?thesis by simp
    next
      case False
      with r "1.IH" [OF Inr p [symmetric] False] read_frame [OF r] show ?thesis by simp
    qed
  qed
qed

text \<open>
  On a stream that does not fail, with a chunk size other than 0, the loop feeds the
  hash every byte from the position on and stops at the end.
\<close>

lemma hash_loop_whole:
  "fault f = None \<Longrightarrow> n \<noteq> 0 \<Longrightarrow>
   hash_loop f n msg =
     (Inr (msg @ drop (pos f) (content f)), f\<lparr>pos := max (pos f) (length (content f))\<rparr>)"
proof (induction f n msg rule: hash_loop.induct)
  case (1 f n msg)
  let ?rest = "drop (pos f) (content f)"
  let ?chunk = "if n < 0 then ?rest else take (nat n) ?rest"
  let ?f' = "f\<lparr>pos := pos f + length ?chunk\<rparr>"
  from "1.prems" have r: "read f n = Inr (?chunk, ?f')"
    by (simp add: read_def Let_def)
  show ?case
  proof (cases "?chunk = []")
    case True
    with "1.prems" have e: "?rest = []" by (auto split: if_splits)
    then have "length (content f) \<le> pos f" by simp
    then have "f\<lparr>pos := max (pos f) (length (content f))\<rparr> = f" by (simp add: max_def)
    with r True e show ?thesis by simp
  next
    case False
    have ih: "hash_loop ?f' n (msg @ ?chunk) =
       (Inr ((msg @ ?chunk) @ drop (pos ?f') (content ?f')),
        ?f'\<lparr>pos := max (pos ?f') (length (content ?f'))\<rparr>)"
      using "1.IH" [OF r refl False] "1.prems" by simp
    have le: "pos f + length ?chunk \<le> length (content f)"
      using False by (auto split: if_splits)
    have d: "?chunk @ drop (pos f + length ?chunk) (content f) = ?rest"
    proof (cases "n < 0")
      case True
      then show ?thesis by simp
    next
      case False
      have "take (nat n) ?rest @ drop (nat n) ?rest = ?rest" by (rule append_take_drop_id)
      moreover have "drop (pos f + length (take (nat n) ?rest)) (content f) = drop (nat n) ?rest"
        by (simp add: min_def add.commute)
      ultimately show ?thesis using False by simp
    qed
    have m: "max (pos f + length ?chunk) (length (content f)) = max (pos f) (length (content f))"
      using le by (simp add: max_def)
    have "hash_loop f n msg = hash_loop ?f' n (msg @ ?chunk)"
      using r False by (subst hash_loop.simps) simp
    also have "\<dots> = (Inr (msg @ ?rest), f\<lparr>pos := max (pos f) (length (content f))\<rparr>)"
      using ih d m by (simp del: hash_loop.simps)
    finally show ?thesis .
  qed
qed

lemma compute_file_hash_restores:
  "snd (compute_file_hash H f chunk_size) = f"
proof -
  have fr: "content (snd (hash_loop (seek f 0) chunk_size [])) = content f"
    "fault (snd (hash_loop (seek f 0) chunk_size [])) = fault f"
    using hash_loop_frame [of "seek f 0" chunk_size "[]"] by (simp_all add: seek_def)
  obtain r f' where h: "hash_loop (seek f 0) chunk_size [] = (r, f')"
    by (cases "hash_loop (seek f 0) chunk_size []")
  with fr have "seek f' (pos f) = f" by (simp add: seek_def)
  with h show ?thesis
    by (cases r) (simp_all add: compute_file_hash_def)
qed

lemma compute_file_hash_digest:
  assumes "fault f = None" and "chunk_size \<noteq> 0"
  shows "fst (compute_file_hash H f chunk_size) = Inr (H (content f))"
proof -
  from assms have "hash_loop (seek f 0) chunk_size [] =
      (Inr (content f), (seek f 0)\<lparr>pos := max 0 (length (content f))\<rparr>)"
    using hash_loop_whole [of "seek f 0" chunk_size "[]"] by (simp add: seek_def)
  then show ?thesis
    by (simp add: compute_file_hash_def)
qed

text \<open>
  C8. \<^verbatim>\<open>compute_file_hash\<close> leaves the file object as it found it, read position
  included, also when a read fails. On a stream that can be read, with a chunk size other
  than 0 (the default is 8192), it returns the digest of all the bytes of the stream,
  wherever the position was: the digest depends on the bytes only, so two streams with
  the same bytes get the same digest.
\<close>

theorem compute_file_hash_whole_stream:
  "snd (compute_file_hash H f chunk_size) = f \<and>
   (fault f = None \<and> chunk_size \<noteq> 0 \<longrightarrow>
      fst (compute_file_hash H f chunk_size) = Inr (H (content f))) \<and>
   (fault f = None \<and> fault g = None \<and> chunk_size \<noteq> 0 \<and> content f = content g \<longrightarrow>
      fst (compute_file_hash H f chunk_size) = fst (compute_file_hash H g chunk_size))"
  by (simp add: compute_file_hash_restores compute_file_hash_digest)

theorem compute_file_hash_whole_stream_witness:
  "snd (compute_file_hash plain_digest \<lparr>content = [1, 2, 3], pos = 2, fault = None\<rparr> 8192)
     = \<lparr>content = [1, 2, 3], pos = 2, fault = None\<rparr> \<and>
   fst (compute_file_hash plain_digest \<lparr>content = [1, 2, 3], pos = 2, fault = None\<rparr> 8192)
     = Inr (plain_digest [1, 2, 3]) \<and>
   fst (compute_file_hash plain_digest \<lparr>content = [1, 2, 3], pos = 2, fault = None\<rparr> 8192)
     = fst (compute_file_hash plain_digest \<lparr>content = [1, 2, 3], pos = 0, fault = None\<rparr> 8192)"
  using compute_file_hash_whole_stream
    [of plain_digest "\<lparr>content = [1, 2, 3], pos = 2, fault = None\<rparr>" 8192
        "\<lparr>content = [1, 2, 3], pos = 0, fault = None\<rparr>"]
    compute_file_hash_whole_stream
    [of plain_digest "\<lparr>content = [1, 2, 3], pos = 0, fault = None\<rparr>" 8192
        "\<lparr>content = [1, 2, 3], pos = 0, fault = None\<rparr>"]
  by simp

subsection \<open>Listing\<close>

lemma newest_first_map: "newest_first qs \<longleftrightarrow> sorted (map (\<lambda>r. - uploaded_at r) qs)"
  by (simp add: newest_first_def sorted_map)

lemma newest_first_all: "newest_first (objects_all table)"
  by (simp add: newest_first_map objects_all_def)

lemma newest_first_filter: "newest_first qs \<Longrightarrow> newest_first (filter P qs)"
  by (simp add: newest_first_map sorted_filter)

lemma newest_first_search: "newest_first qs \<Longrightarrow> newest_first (filter_search qp qs)"
  by (simp add: filter_search_def newest_first_filter split: option.splits)

lemma newest_first_file_type: "newest_first qs \<Longrightarrow> newest_first (filter_file_type qp qs)"
  by (simp add: filter_file_type_def newest_first_filter split: option.splits)

lemma newest_first_size_min:
  "newest_first qs \<Longrightarrow> filter_size_min L qp qs = Inr qs' \<Longrightarrow> newest_first qs'"
  by (auto simp: filter_size_min_def newest_first_filter split: option.splits if_splits)

lemma newest_first_size_max:
  "newest_first qs \<Longrightarrow> filter_size_max L qp qs = Inr qs' \<Longrightarrow> newest_first qs'"
  by (auto simp: filter_size_max_def newest_first_filter split: option.splits if_splits)

lemma newest_first_uploaded_after:
  "newest_first qs \<Longrightarrow> filter_uploaded_after L qp qs = Inr qs' \<Longrightarrow> newest_first qs'"
  by (auto simp: filter_uploaded_after_def newest_first_filter split: option.splits if_splits)

lemma newest_first_uploaded_before:
  "newest_first qs \<Longrightarrow> filter_uploaded_before L qp qs = Inr qs' \<Longrightarrow> newest_first qs'"
  by (auto simp: filter_uploaded_before_def newest_first_filter split: option.splits if_splits)

text \<open>
  C10. Whatever filters a listing applies, the rows it returns are in descending order of
  \<open>uploaded_at\<close>: no row comes before one that was uploaded later.
\<close>

theorem listing_newest_first:
  assumes "get_queryset L table query_params = Inr queryset"
  shows "sorted_wrt (\<lambda>a b. uploaded_at b \<le> uploaded_at a) queryset"
proof -
  let ?q0 = "filter_file_type query_params (filter_search query_params (objects_all table))"
  have q0: "newest_first ?q0"
    by (intro newest_first_file_type newest_first_search newest_first_all)
  from assms obtain q1 q2 q3 where
    s1: "filter_size_min L query_params ?q0 = Inr q1" and
    s2: "filter_size_max L query_params q1 = Inr q2" and
    s3: "filter_uploaded_after L query_params q2 = Inr q3" and
    s4: "filter_uploaded_before L query_params q3 = Inr queryset"
    by (auto simp: get_queryset_def and_then_def split: sum.splits)
  from q0 s1 have "newest_first q1" by (rule newest_first_size_min)
  from this s2 have "newest_first q2" by (rule newest_first_size_max)
  from this s3 have "newest_first q3" by (rule newest_first_uploaded_after)
  from this s4 have "newest_first queryset" by (rule newest_first_uploaded_before)
  then show ?thesis by (simp add: newest_first_def)
qed

theorem listing_newest_first_witness:
  "get_queryset example_lib [example_row 0 ''a'' 100 5, example_row 2 ''b'' 500 7, example_row 4 ''c'' 1000 6] [(''size_min'', ''500'')]
     = Inr [example_row 2 ''b'' 500 7, example_row 4 ''c'' 1000 6] \<and>
   sorted_wrt (\<lambda>a b. uploaded_at b \<le> uploaded_at a) [example_row 2 ''b'' 500 7, example_row 4 ''c'' 1000 6]"
proof -
  have g: "get_queryset example_lib [example_row 0 ''a'' 100 5, example_row 2 ''b'' 500 7, example_row 4 ''c'' 1000 6] [(''size_min'', ''500'')]
     = Inr [example_row 2 ''b'' 500 7, example_row 4 ''c'' 1000 6]"
    by (simp add: get_queryset_def and_then_def filter_size_min_def filter_size_max_def
        filter_uploaded_after_def filter_uploaded_before_def filter_search_def
        filter_file_type_def qp_get_def objects_all_def example_lib_def decimal_def example_row_def)
  from listing_newest_first [OF g] g show ?thesis by simp
qed

lemma offending_alt:
  "offending L qp = filter (given_bad L qp) [''size_min'', ''size_max'', ''uploaded_after'', ''uploaded_before'']"
  unfolding offending_def given_bad_def ..

text \<open>
  The \<^verbatim>\<open>try\<close> block of a date bound raises exactly on the malformed values, whatever
  the time of day it combines a date with.
\<close>

lemma parse_bound_fails:
  "parse_bound L time_of_day v = None \<longleftrightarrow> not_a_date L v"
  by (simp add: parse_bound_def not_a_date_def split: parsed.splits datetime.splits)

lemma unparsable_simps:
  "unparsable L ''size_min'' v \<longleftrightarrow> int_of L v = None"
  "unparsable L ''size_max'' v \<longleftrightarrow> int_of L v = None"
  "unparsable L ''uploaded_after'' v \<longleftrightarrow> parse_bound L 0 v = None"
  "unparsable L ''uploaded_before'' v \<longleftrightarrow> parse_bound L 86399999999 v = None"
  by (simp_all add: unparsable_def parse_bound_fails)

lemma size_min_cases:
  "filter_size_min L qp qs =
     (if given_bad L qp ''size_min'' then Inl (ValidationError [(''size_min'', reason ''size_min'')])
      else Inr (case qp_get qp ''size_min'' of None \<Rightarrow> qs
                | Some v \<Rightarrow> if v = [] then qs else filter (\<lambda>r. the (int_of L v) \<le> size_bytes r) qs))"
  by (simp add: filter_size_min_def given_bad_def unparsable_simps reason_def split: option.splits)

lemma size_max_cases:
  "filter_size_max L qp qs =
     (if given_bad L qp ''size_max'' then Inl (ValidationError [(''size_max'', reason ''size_max'')])
      else Inr (case qp_get qp ''size_max'' of None \<Rightarrow> qs
                | Some v \<Rightarrow> if v = [] then qs else filter (\<lambda>r. size_bytes r \<le> the (int_of L v)) qs))"
  by (simp add: filter_size_max_def given_bad_def unparsable_simps reason_def split: option.splits)

lemma uploaded_after_cases:
  "filter_uploaded_after L qp qs =
     (if given_bad L qp ''uploaded_after''
      then Inl (ValidationError [(''uploaded_after'', reason ''uploaded_after'')])
      else Inr (case qp_get qp ''uploaded_after'' of None \<Rightarrow> qs
                | Some v \<Rightarrow> if v = [] then qs
                            else filter (\<lambda>r. the (parse_bound L 0 v) \<le> uploaded_at r) qs))"
  by (simp add: filter_uploaded_after_def given_bad_def unparsable_simps reason_def
      split: option.splits)

lemma uploaded_before_cases:
  "filter_uploaded_before L qp qs =
     (if given_bad L qp ''uploaded_before''
      then Inl (ValidationError [(''uploaded_before'', reason ''uploaded_before'')])
      else Inr (case qp_get qp ''uploaded_before'' of None \<Rightarrow> qs
                | Some v \<Rightarrow> if v = [] then qs
                            else filter (\<lambda>r. uploaded_at r \<le> the (parse_bound L 86399999999 v)) qs))"
  by (simp add: filter_uploaded_before_def given_bad_def unparsable_simps reason_def
      split: option.splits)

text \<open>
  C9, as amended. When some filter parameter among \<open>size_min\<close>, \<open>size_max\<close>,
  \<open>uploaded_after\<close> and \<open>uploaded_before\<close> is given with a value that is not empty
  and is malformed (\<^verbatim>\<open>int\<close> raises on a size bound; on a date bound
  \<^verbatim>\<open>parse_datetime\<close> raises, or returns \<^verbatim>\<open>None\<close> and \<^verbatim>\<open>parse_date\<close> returns
  \<^verbatim>\<open>None\<close> or raises), the listing fails with a \<^verbatim>\<open>ValidationError\<close> that names the
  first such parameter, in that order, and gives its reason.
\<close>

theorem malformed_filter_rejected:
  assumes "offending L query_params = key # others"
  shows "get_queryset L table query_params = Inl (ValidationError [(key, reason key)])"
proof -
  let ?bad = "given_bad L query_params"
  from assms have f: "filter ?bad [''size_min'', ''size_max'', ''uploaded_after'', ''uploaded_before'']
      = key # others"
    by (simp only: offending_alt)
  show ?thesis
  proof (cases "?bad ''size_min''")
    case True
    with f have "key = ''size_min''" by simp
    with True show ?thesis
      by (simp only: get_queryset_def size_min_cases and_then_def if_True sum.case)
  next
    case b1: False
    show ?thesis
    proof (cases "?bad ''size_max''")
      case True
      with f b1 have "key = ''size_max''" by simp
      with True b1 show ?thesis
        by (simp only: get_queryset_def size_min_cases size_max_cases and_then_def
            if_True if_False sum.case)
    next
      case b2: False
      show ?thesis
      proof (cases "?bad ''uploaded_after''")
        case True
        with f b1 b2 have "key = ''uploaded_after''" by simp
        with True b1 b2 show ?thesis
          by (simp only: get_queryset_def size_min_cases size_max_cases uploaded_after_cases
              and_then_def if_True if_False sum.case)
      next
        case b3: False
        show ?thesis
        proof (cases "?bad ''uploaded_before''")
          case True
          with f b1 b2 b3 have "key = ''uploaded_before''" by simp
          with True b1 b2 b3 show ?thesis
            by (simp only: get_queryset_def size_min_cases size_max_cases uploaded_after_cases
                uploaded_before_cases and_then_def if_True if_False sum.case)
        next
          case False
          with f b1 b2 b3 show ?thesis by simp
        qed
      qed
    qed
  qed
qed

theorem malformed_filter_rejected_witness:
  "offending example_lib [(''search'', ''a''), (''size_min'', ''abc''), (''uploaded_after'', ''2024-02-30'')]
     = [''size_min'', ''uploaded_after''] \<and>
   get_queryset example_lib [example_row 0 ''a'' 100 5]
       [(''search'', ''a''), (''size_min'', ''abc''), (''uploaded_after'', ''2024-02-30'')]
     = Inl (ValidationError [(''size_min'', ''Must be a valid integer'')])"
proof -
  have o: "offending example_lib [(''search'', ''a''), (''size_min'', ''abc''), (''uploaded_after'', ''2024-02-30'')]
     = [''size_min'', ''uploaded_after'']"
    by (simp add: offending_def qp_get_def unparsable_def not_a_date_def example_lib_def decimal_def)
  from malformed_filter_rejected [OF o, of "[example_row 0 ''a'' 100 5]"] o show ?thesis
    by (simp add: reason_def)
qed

text \<open>
  C9 as stated fails: a size bound given with the empty value is not an integer, and the
  guard \<^verbatim>\<open>if size_min:\<close> skips it; the listing answers as if no bound were given.
\<close>

theorem empty_filter_value_ignored:
  "int_of example_lib [] = None \<and>
   get_queryset example_lib [example_row 0 ''a'' 100 5] [(''size_min'', [])] = Inr [example_row 0 ''a'' 100 5]"
  by (simp add: get_queryset_def and_then_def filter_size_min_def filter_size_max_def
        filter_uploaded_after_def filter_uploaded_before_def filter_search_def
        filter_file_type_def qp_get_def objects_all_def example_lib_def decimal_def)

subsection \<open>What the statements of \<^verbatim>\<open>create\<close> do\<close>

lemma compute_file_hash_ok:
  "fault f = None \<Longrightarrow> compute_file_hash H f 8192 = (Inr (H (content f)), f)"
  using compute_file_hash_restores [of H f 8192] compute_file_hash_digest [of f 8192 H]
  by (cases "compute_file_hash H f 8192") simp

lemma set_objects_all [simp]: "set (objects_all table) = set table"
  by (simp add: objects_all_def)

lemma filter_first_none:
  assumes "\<forall>r \<in> set table. content_hash r \<noteq> Some h"
  shows "filter_first table h (s, False) = (Inr None, (s, False))"
proof -
  from assms have "filter (\<lambda>r. content_hash r = Some h) (objects_all table) = []"
    by (simp add: filter_empty_conv)
  then show ?thesis by (simp add: filter_first_def)
qed

lemma generate_filename_eq:
  "generate_filename u filename = Upload u (stored_extension filename)"
  by (simp add: generate_filename_def file_upload_path_def stored_extension_def)

lemma get_available_name_fits:
  assumes "length ext < 83"
  shows "get_available_name (Upload u ext) 100 (s, nr) =
     (if length ext \<le> 55 then (Inr (Upload u ext), (s, nr))
      else (Inr (Shortened u (83 - length ext) (Suc (next_uuid s)) ext),
            (s\<lparr>next_uuid := next_uuid s + 2\<rparr>, nr)))"
proof (cases "length ext \<le> 55")
  case True
  then show ?thesis by (simp add: get_available_name_def ok_def)
next
  case False
  with assms have t: "\<not> 36 \<le> 53 + length ext - 100" "36 - (53 + length ext - 100) = 83 - length ext"
    by simp_all
  with False show ?thesis
    by (simp add: get_available_name_def then_do_def uuid4_def ok_def Let_def)
qed

lemma get_available_name_refused:
  assumes "83 \<le> length ext"
  shows "get_available_name (Upload u ext) 100 (s, nr) =
     (Inl SuspiciousFileOperation, (s\<lparr>next_uuid := Suc (next_uuid s)\<rparr>, nr))"
proof -
  from assms have "36 \<le> length ext - 47" "\<not> length ext \<le> 55" by arith+
  then show ?thesis
    by (simp add: get_available_name_def then_do_def uuid4_def raise_def Let_def)
qed

lemma storage_save_fits:
  assumes "length (stored_extension filename) < 83"
  shows "storage_save (generate_filename (Suc (next_uuid s)) filename) b 100
           (s\<lparr>next_uuid := Suc (Suc (next_uuid s))\<rparr>, nr) =
     (Inr (stored_as s filename),
      (s\<lparr>storage := (stored_as s filename, b) # storage s,
         next_uuid := supply_after s filename\<rparr>, nr))"
  using get_available_name_fits [OF assms, of "Suc (next_uuid s)"
      "s\<lparr>next_uuid := Suc (Suc (next_uuid s))\<rparr>" nr]
  by (simp add: storage_save_def generate_filename_eq then_do_def storage_write_def ok_def
      stored_as_def supply_after_def)

lemma storage_save_refused:
  assumes "83 \<le> length (stored_extension filename)"
  shows "storage_save (generate_filename u filename) b 100 (s, nr) =
     (Inl SuspiciousFileOperation, (s\<lparr>next_uuid := Suc (next_uuid s)\<rparr>, nr))"
  using get_available_name_refused [OF assms, of u s nr]
  by (simp add: storage_save_def generate_filename_eq then_do_def)

lemma stored_as_new:
  "next_uuid s \<le> uuid_of (stored_as s filename)"
  "uuid_of (stored_as s filename) < supply_after s filename"
  "next_uuid s < supply_after s filename"
  by (simp_all add: stored_as_def supply_after_def)

lemma serializer_save_ok:
  assumes "\<forall>r \<in> set (rows s). id_pk r < next_uuid s"
    and "\<forall>r \<in> set (rows s). content_hash r \<noteq> Some h"
    and "length (stored_extension (name f)) < 83"
  shows "serializer_save now f v h (s, False) =
     (Inr (canonical_row s now f v h),
      (s\<lparr>rows := rows s @ [canonical_row s now f v h],
         storage := (stored_as s (name f), content (file_body f)) # storage s,
         next_uuid := supply_after s (name f)\<rparr>, False))"
proof -
  have "\<not> violates (rows s) (canonical_row s now f v h)"
    using assms(1,2) by (auto simp: violates_def canonical_row_def)
  then show ?thesis
    by (simp add: serializer_save_def then_do_def uuid4_def storage_save_fits [OF assms(3)]
        insert_row_def canonical_row_def)
qed

lemma serializer_save_refused:
  assumes "83 \<le> length (stored_extension (name f))"
  shows "serializer_save now f v h (s, False) =
     (Inl SuspiciousFileOperation, (s\<lparr>next_uuid := next_uuid s + 3\<rparr>, False))"
  by (simp add: serializer_save_def then_do_def uuid4_def storage_save_refused [OF assms])

lemma create_block_first_upload:
  assumes "\<forall>r \<in> set (rows s). id_pk r < next_uuid s"
    and "\<forall>r \<in> set (rows s). content_hash r \<noteq> Some h"
    and "is_valid f = Inr v"
    and "length (stored_extension (name f)) < 83"
  shows "create_block now (rows s) f h (s, False) =
     (Inr (Response 201 (Data (canonical_row s now f v h))),
      (s\<lparr>rows := rows s @ [canonical_row s now f v h],
         storage := (stored_as s (name f), content (file_body f)) # storage s,
         next_uuid := supply_after s (name f)\<rparr>, False))"
  using assms
  by (simp add: create_block_def then_do_def filter_first_none try_except_def
      serializer_save_ok ok_def)

lemma create_block_name_too_long:
  assumes "\<forall>r \<in> set seen. content_hash r \<noteq> Some h"
    and "is_valid f = Inr v"
    and "83 \<le> length (stored_extension (name f))"
  shows "create_block now seen f h (s, False) =
     (Inl SuspiciousFileOperation, (s\<lparr>next_uuid := next_uuid s + 3\<rparr>, False))"
  using assms
  by (simp add: create_block_def then_do_def filter_first_none try_except_def
      serializer_save_refused)

lemma create_block_invalid:
  assumes "\<forall>r \<in> set (rows s). content_hash r \<noteq> Some h"
    and "is_valid f = Inl e"
  shows "create_block now (rows s) f h (s, False) = (Inl e, (s, False))"
proof -
  from assms(2) obtain errs where "e = ValidationError errs"
    by (auto simp: is_valid_def Let_def split: if_splits)
  with assms show ?thesis
    by (simp add: create_block_def then_do_def filter_first_none try_except_def raise_def)
qed

lemma filter_first_cases:
  "(\<exists>e. filter_first table h (s, False) = (Inr (Some e), (s, False)) \<and> e \<in> set table \<and> content_hash e = Some h)
   \<or> (filter_first table h (s, False) = (Inr None, (s, False)) \<and> (\<forall>r \<in> set table. content_hash r \<noteq> Some h))"
proof (cases "filter (\<lambda>r. content_hash r = Some h) (objects_all table)")
  case Nil
  then have "\<forall>r \<in> set table. content_hash r \<noteq> Some h"
    by (simp add: filter_empty_conv)
  with Nil show ?thesis by (simp add: filter_first_def)
next
  case (Cons e es)
  then have "e \<in> set (filter (\<lambda>r. content_hash r = Some h) (objects_all table))" by simp
  then have "e \<in> set table \<and> content_hash e = Some h" by simp
  with Cons show ?thesis by (simp add: filter_first_def)
qed

lemma link_duplicate_ok:
  assumes "\<forall>r \<in> set (rows s). id_pk r < next_uuid s"
    and "\<forall>r \<in> set (rows s). 0 \<le> reference_count r"
    and "e \<in> set (rows s)"
  shows "link_duplicate now f e (s, False) =
     (Inr (Response 201 (Data (duplicate_row s now f e))),
      (s\<lparr>rows := map (add_to_count (id_pk e) 1) (rows s) @ [duplicate_row s now f e],
         next_uuid := Suc (next_uuid s)\<rparr>, False))"
proof -
  let ?d = "duplicate_row s now f e"
  let ?s1 = "s\<lparr>next_uuid := Suc (next_uuid s)\<rparr>"
  from assms have lt: "id_pk e < next_uuid s" by simp
  have nv: "\<not> violates (rows ?s1) ?d"
    using assms by (auto simp: violates_def duplicate_row_def)
  then have ins: "insert_row ?d (?s1, False) = (Inr ?d, (?s1\<lparr>rows := rows s @ [?d]\<rparr>, False))"
    by (simp add: insert_row_def)
  let ?s2 = "?s1\<lparr>rows := rows s @ [?d]\<rparr>"
  have nneg: "\<not> (\<exists>r \<in> set (rows ?s2). id_pk r = id_pk e \<and> reference_count r + 1 < 0)"
    using assms(2) by (auto simp: duplicate_row_def)
  have d_keep: "add_to_count (id_pk e) 1 ?d = ?d"
    using lt by (simp add: add_to_count_def duplicate_row_def)
  let ?s3 = "?s2\<lparr>rows := map (add_to_count (id_pk e) 1) (rows s) @ [?d]\<rparr>"
  from nneg d_keep have upd: "update_reference_count (id_pk e) 1 (?s2, False) =
      (Inr (length (filter (\<lambda>r. id_pk r = id_pk e) (rows ?s2))), (?s3, False))"
    by (simp add: update_reference_count_def)
  have "add_to_count (id_pk e) 1 e \<in> set (rows ?s3)" using assms(3) by simp
  moreover have "id_pk (add_to_count (id_pk e) 1 e) = id_pk e" by (simp add: add_to_count_def)
  ultimately have "filter (\<lambda>r. id_pk r = id_pk e) (rows ?s3) \<noteq> []"
    by (metis (mono_tags, lifting) filter_empty_conv)
  then obtain x xs where "filter (\<lambda>r. id_pk r = id_pk e) (rows ?s3) = x # xs"
    by (cases "filter (\<lambda>r. id_pk r = id_pk e) (rows ?s3)") auto
  then have get: "get_by_pk (id_pk e) (?s3, False) = (Inr x, (?s3, False))"
    by (simp add: get_by_pk_def)
  have "link_duplicate now f e (s, False) = (Inr (Response 201 (Data ?d)), (?s3, False))"
    unfolding link_duplicate_def
    apply (simp only: then_do_def uuid4_def prod.case sum.case)
    apply (fold duplicate_row_def)
    apply (simp only: ins upd get prod.case sum.case ok_def)
    done
  then show ?thesis by simp
qed

subsection \<open>What the statements of \<^verbatim>\<open>destroy\<close> do\<close>

lemma get_object_found:
  assumes "get_object s pk = Inr r"
  shows "r \<in> set (rows s) \<and> id_pk r = pk"
proof -
  from assms obtain rs where f: "filter (\<lambda>r. id_pk r = pk) (rows s) = r # rs"
    by (auto simp: get_object_def split: list.splits)
  then have "r \<in> set (filter (\<lambda>r. id_pk r = pk) (rows s))" by simp
  then show ?thesis by simp
qed

lemma referenced_file_add_to_count [simp]:
  "referenced_file (add_to_count i d r) = referenced_file r"
  "is_duplicate (add_to_count i d r) = is_duplicate r"
  "id_pk (add_to_count i d r) = id_pk r"
  "content_hash (add_to_count i d r) = content_hash r"
  by (simp_all add: add_to_count_def)

lemma destroy_duplicate_ok:
  assumes g: "get_object s pk = Inr d"
    and dup: "is_duplicate d"
    and ref: "referenced_file d = Some i"
    and ex: "i \<in> id_pk ` set (rows s)"
    and pos: "\<forall>r \<in> set (rows s). id_pk r = i \<longrightarrow> 1 \<le> reference_count r"
    and free: "\<forall>r \<in> set (rows s). referenced_file r \<noteq> Some pk"
  shows "destroy s pk =
     (Inr (Response 204 Empty),
      s\<lparr>rows := filter (\<lambda>r. id_pk r \<noteq> pk) (map (add_to_count i (- 1)) (rows s))\<rparr>)"
proof -
  from ex have "filter (\<lambda>r. id_pk r = i) (rows s) \<noteq> []"
    by (auto simp: filter_empty_conv)
  then obtain original rest where f: "filter (\<lambda>r. id_pk r = i) (rows s) = original # rest"
    by (cases "filter (\<lambda>r. id_pk r = i) (rows s)") auto
  then have "original \<in> set (filter (\<lambda>r. id_pk r = i) (rows s))" by simp
  then have oi: "id_pk original = i" by simp
  from f have get: "get_by_pk i (s, False) = (Inr original, (s, False))"
    by (simp add: get_by_pk_def)
  from pos have "\<not> (\<exists>r \<in> set (rows s). id_pk r = i \<and> reference_count r + (- 1) < 0)"
    by auto
  then have upd: "update_reference_count i (- 1) (s, False) =
      (Inr (length (filter (\<lambda>r. id_pk r = i) (rows s))),
       (s\<lparr>rows := map (add_to_count i (- 1)) (rows s)\<rparr>, False))"
    by (simp add: update_reference_count_def)
  let ?s1 = "s\<lparr>rows := map (add_to_count i (- 1)) (rows s)\<rparr>"
  from free have "\<not> (\<exists>r \<in> set (rows ?s1). referenced_file r = Some pk)"
    by auto
  then have del: "delete_row pk (?s1, False) =
      (Inr (), (?s1\<lparr>rows := filter (\<lambda>r. id_pk r \<noteq> pk) (rows ?s1)\<rparr>, False))"
    by (simp add: delete_row_def)
  from get_object_found [OF g] have dp: "id_pk d = pk" by simp
  have "destroy_block d (s, False) =
      (Inr (Response 204 Empty), (?s1\<lparr>rows := filter (\<lambda>r. id_pk r \<noteq> pk) (rows ?s1)\<rparr>, False))"
    using dup ref
    by (simp add: destroy_block_def then_do_def get oi upd del dp ok_def)
  with g show ?thesis
    by (simp add: destroy_def atomic_def)
qed

lemma filter_out_replaced:
  "id_pk y = i \<Longrightarrow>
   filter (\<lambda>r. id_pk r \<noteq> i) (map (\<lambda>x. if id_pk x = i then y else x) table)
     = filter (\<lambda>r. id_pk r \<noteq> i) table"
  by (induction table) auto

lemma destroy_original_ok:
  assumes g: "get_object s pk = Inr r"
    and orig: "\<not> is_duplicate r"
    and cnt: "reference_count r \<le> 1"
    and free: "\<forall>x \<in> set (rows s). referenced_file x \<noteq> Some pk"
  shows "destroy s pk =
     (Inr (Response 204 Empty),
      s\<lparr>rows := filter (\<lambda>x. id_pk x \<noteq> pk) (rows s),
        storage := (case file_field r of
                      None \<Rightarrow> storage s
                    | Some l \<Rightarrow> filter (\<lambda>kv. fst kv \<noteq> l) (storage s))\<rparr>)"
proof -
  from get_object_found [OF g] have mem: "r \<in> set (rows s)" and rp: "id_pk r = pk" by simp_all
  show ?thesis
  proof (cases "file_field r")
    case None
    from free have del: "delete_row pk (s, False) =
        (Inr (), (s\<lparr>rows := filter (\<lambda>x. id_pk x \<noteq> pk) (rows s)\<rparr>, False))"
      by (simp add: delete_row_def)
    have "destroy_block r (s, False) =
        (Inr (Response 204 Empty), (s\<lparr>rows := filter (\<lambda>x. id_pk x \<noteq> pk) (rows s)\<rparr>, False))"
      using orig cnt None by (simp add: destroy_block_def then_do_def ok_def del rp)
    with g None show ?thesis by (simp add: destroy_def atomic_def)
  next
    case (Some l)
    let ?r' = "r\<lparr>file_field := None\<rparr>"
    let ?s1 = "s\<lparr>storage := filter (\<lambda>kv. fst kv \<noteq> l) (storage s)\<rparr>"
    let ?s2 = "?s1\<lparr>rows := map (\<lambda>x. if id_pk x = pk then ?r' else x) (rows s)\<rparr>"
    have sv: "save_row ?r' (?s1, False) = (Inr ?r', (?s2, False))"
      using mem rp by (auto simp: save_row_def)
    have "\<not> (\<exists>x \<in> set (rows ?s2). referenced_file x = Some pk)"
      using free mem by auto
    then have del: "delete_row pk (?s2, False) =
        (Inr (), (?s2\<lparr>rows := filter (\<lambda>x. id_pk x \<noteq> pk) (rows ?s2)\<rparr>, False))"
      by (simp add: delete_row_def)
    have fr: "filter (\<lambda>x. id_pk x \<noteq> pk) (rows ?s2) = filter (\<lambda>x. id_pk x \<noteq> pk) (rows s)"
      using filter_out_replaced [of ?r' pk "rows s"] rp by simp
    have "destroy_block r (s, False) =
        (Inr (Response 204 Empty), (?s2\<lparr>rows := filter (\<lambda>x. id_pk x \<noteq> pk) (rows ?s2)\<rparr>, False))"
      using orig cnt Some
      by (simp add: destroy_block_def then_do_def ok_def fieldfile_delete_def storage_delete_def
          sv del rp)
    with g Some fr show ?thesis by (simp add: destroy_def atomic_def)
  qed
qed

lemma destroy_protected_eq:
  assumes "get_object s pk = Inr r" and "\<not> is_duplicate r" and "1 < reference_count r"
  shows "destroy s pk =
     (Inl (PermissionDenied
        ''Cannot delete original file that has duplicates. Delete duplicates first.''), s)"
  using assms by (simp add: destroy_def destroy_block_def atomic_def raise_def)

lemma destroy_missing:
  "get_object s pk = Inl e \<Longrightarrow> destroy s pk = (Inl e, s)"
  by (simp add: destroy_def)

subsection \<open>The invariants of the table, operation by operation\<close>

lemma same_key_same_row:
  "distinct (map id_pk table) \<Longrightarrow> x \<in> set table \<Longrightarrow> y \<in> set table \<Longrightarrow>
   id_pk x = id_pk y \<Longrightarrow> x = y"
  by (meson distinct_map inj_onD)

lemma count_dups_append:
  "count_dups (table @ [x]) i =
     count_dups table i + (if is_duplicate x \<and> referenced_file x = Some i then 1 else 0)"
  by (simp add: count_dups_def)

lemma count_dups_add_to_count [simp]:
  "count_dups (map (add_to_count j d) table) i = count_dups table i"
  by (induction table) (simp_all add: count_dups_def)

lemma count_dups_zero:
  "count_dups table i = 0 \<longleftrightarrow>
     (\<forall>r \<in> set table. \<not> (is_duplicate r \<and> referenced_file r = Some i))"
  by (auto simp: count_dups_def filter_empty_conv)

lemma count_dups_remove:
  assumes "distinct (map id_pk table)" and "x \<in> set table"
  shows "count_dups table i =
     count_dups (filter (\<lambda>r. id_pk r \<noteq> id_pk x) table) i
       + (if is_duplicate x \<and> referenced_file x = Some i then 1 else 0)"
  using assms
proof (induction table)
  case Nil
  then show ?case by simp
next
  case (Cons r table)
  show ?case
  proof (cases "r = x")
    case True
    with Cons.prems have "\<forall>y \<in> set table. id_pk y \<noteq> id_pk x" by (auto simp: image_iff)
    then have "filter (\<lambda>r. id_pk r \<noteq> id_pk x) table = table"
      by (simp add: filter_id_conv)
    with True show ?thesis by (simp add: count_dups_def)
  next
    case False
    with Cons.prems have mem: "x \<in> set table" and d: "distinct (map id_pk table)"
      and ne: "id_pk r \<noteq> id_pk x" by auto
    from Cons.IH [OF d mem] ne show ?thesis by (simp add: count_dups_def)
  qed
qed

lemma links_ok_row:
  assumes "links_ok table" and "r \<in> set table"
  shows "if is_duplicate r
         then content_hash r = None \<and>
              (\<exists>c \<in> set table. \<not> is_duplicate c \<and> referenced_file r = Some (id_pk c))
         else referenced_file r = None"
  using assms unfolding links_ok_def by (rule bspec)

lemma links_ok_duplicate:
  assumes "links_ok table" and "r \<in> set table" and "is_duplicate r"
  obtains c where "c \<in> set table" and "\<not> is_duplicate c"
    and "referenced_file r = Some (id_pk c)" and "content_hash r = None"
  using links_ok_row [OF assms(1,2)] assms(3) by auto

lemma links_ok_original:
  assumes "links_ok table" and "r \<in> set table" and "\<not> is_duplicate r"
  shows "referenced_file r = None"
  using links_ok_row [OF assms(1,2)] assms(3) by simp

lemma refcounts_ok_row:
  assumes "refcounts_ok table" and "r \<in> set table"
  shows "reference_count r =
     (if is_duplicate r then 1 else 1 + int (count_dups table (id_pk r)))"
  using assms unfolding refcounts_ok_def by (rule bspec)

text \<open>No live duplicate references a key that no row has.\<close>

lemma no_dangling:
  assumes "links_ok table" and "\<forall>r \<in> set table. id_pk r \<noteq> i"
  shows "\<forall>r \<in> set table. referenced_file r \<noteq> Some i"
proof
  fix r assume r: "r \<in> set table"
  show "referenced_file r \<noteq> Some i"
  proof (cases "is_duplicate r")
    case True
    from links_ok_duplicate [OF assms(1) r True] obtain c
      where "c \<in> set table" "referenced_file r = Some (id_pk c)" by metis
    with assms(2) show ?thesis by auto
  next
    case False
    from links_ok_original [OF assms(1) r False] show ?thesis by simp
  qed
qed

lemma table_ok_first_upload:
  assumes ok: "table_ok table"
    and fresh: "\<forall>r \<in> set table. id_pk r \<noteq> id_pk c"
    and c: "\<not> is_duplicate c" "referenced_file c = None" "reference_count c = 1"
    and h: "\<forall>r \<in> set table. content_hash r \<noteq> content_hash c"
  shows "table_ok (table @ [c])"
proof -
  from ok have d: "distinct (map id_pk table)" and l: "links_ok table"
    and hs: "hashes_ok table" and rc: "refcounts_ok table"
    by (simp_all add: table_ok_def)
  have d': "distinct (map id_pk (table @ [c]))" using d fresh by auto
  have l': "links_ok (table @ [c])"
    using l c unfolding links_ok_def by (auto split: if_splits)
  have hs': "hashes_ok (table @ [c])"
    using hs h unfolding hashes_ok_def by (auto; metis)
  from no_dangling [OF l fresh] have z: "count_dups table (id_pk c) = 0"
    by (simp add: count_dups_zero)
  have rc': "refcounts_ok (table @ [c])"
    using rc c z unfolding refcounts_ok_def by (auto simp: count_dups_append)
  from d' l' hs' rc' show ?thesis by (simp add: table_ok_def)
qed

lemma id_pk_comp_add_to_count [simp]: "id_pk \<circ> add_to_count i d = id_pk"
  by (rule ext) simp

lemma table_ok_duplicate_upload:
  assumes ok: "table_ok table"
    and e: "e \<in> set table" "\<not> is_duplicate e"
    and fresh: "\<forall>r \<in> set table. id_pk r \<noteq> id_pk d"
    and d: "is_duplicate d" "content_hash d = None" "reference_count d = 1"
      "referenced_file d = Some (id_pk e)"
  shows "table_ok (map (add_to_count (id_pk e) 1) table @ [d])"
proof -
  let ?f = "add_to_count (id_pk e) 1"
  let ?t = "map ?f table @ [d]"
  from ok have dist: "distinct (map id_pk table)" and l: "links_ok table"
    and hs: "hashes_ok table" and rc: "refcounts_ok table"
    by (simp_all add: table_ok_def)
  have ids: "map id_pk (map ?f table) = map id_pk table" by simp
  have dist': "distinct (map id_pk ?t)"
    using dist fresh by auto
  have fe: "?f e \<in> set ?t" using e(1) by simp
  have l': "links_ok ?t"
    unfolding links_ok_def
  proof
    fix r' assume "r' \<in> set ?t"
    then consider r where "r \<in> set table" "r' = ?f r" | "r' = d" by auto
    then show "if is_duplicate r'
        then content_hash r' = None \<and>
             (\<exists>c \<in> set ?t. \<not> is_duplicate c \<and> referenced_file r' = Some (id_pk c))
        else referenced_file r' = None"
    proof cases
      case 1
      show ?thesis
      proof (cases "is_duplicate r")
        case True
        from links_ok_duplicate [OF l 1(1) True] obtain c where
          c: "c \<in> set table" "\<not> is_duplicate c" "referenced_file r = Some (id_pk c)"
            "content_hash r = None" by metis
        from c(1) have "?f c \<in> set ?t" by simp
        moreover have "\<not> is_duplicate (?f c)" "referenced_file r' = Some (id_pk (?f c))"
          using c 1 by simp_all
        ultimately have "\<exists>c \<in> set ?t. \<not> is_duplicate c \<and> referenced_file r' = Some (id_pk c)"
          by blast
        with True c 1 show ?thesis by simp
      next
        case False
        with links_ok_original [OF l 1(1) False] 1 show ?thesis by simp
      qed
    next
      case 2
      have "\<not> is_duplicate (?f e)" "referenced_file d = Some (id_pk (?f e))"
        using e d by simp_all
      with fe have "\<exists>c \<in> set ?t. \<not> is_duplicate c \<and> referenced_file d = Some (id_pk c)"
        by blast
      with 2 d show ?thesis by simp
    qed
  qed
  have hs': "hashes_ok ?t"
    unfolding hashes_ok_def
  proof (intro ballI impI)
    fix a b assume a: "a \<in> set ?t" and b: "b \<in> set ?t"
      and eq: "content_hash a \<noteq> None \<and> content_hash a = content_hash b"
    from eq d have "a \<noteq> d" "b \<noteq> d" by auto
    with a b obtain x y where x: "x \<in> set table" "a = ?f x" and y: "y \<in> set table" "b = ?f y"
      by auto
    have "content_hash a = content_hash x" "content_hash b = content_hash y"
      using x y by simp_all
    with eq have "content_hash x \<noteq> None \<and> content_hash x = content_hash y" by metis
    with hs x(1) y(1) have "x = y" unfolding hashes_ok_def by blast
    with x y show "a = b" by simp
  qed
  have cnt: "count_dups ?t i = count_dups table i + (if i = id_pk e then 1 else 0)" for i
    using d by (auto simp: count_dups_append)
  have rc': "refcounts_ok ?t"
    unfolding refcounts_ok_def
  proof
    fix r' assume "r' \<in> set ?t"
    then consider r where "r \<in> set table" "r' = ?f r" | "r' = d" by auto
    then show "reference_count r' =
        (if is_duplicate r' then 1 else 1 + int (count_dups ?t (id_pk r')))"
    proof cases
      case 1
      note rr = refcounts_ok_row [OF rc 1(1)]
      show ?thesis
      proof (cases "is_duplicate r")
        case True
        have "id_pk r \<noteq> id_pk e"
        proof
          assume "id_pk r = id_pk e"
          from same_key_same_row [OF dist 1(1) e(1) this] True e(2) show False by simp
        qed
        with True rr 1 show ?thesis by (simp add: add_to_count_def)
      next
        case False
        with rr 1 show ?thesis by (simp add: add_to_count_def cnt)
      qed
    next
      case 2
      with d show ?thesis by simp
    qed
  qed
  from dist' l' hs' rc' show ?thesis by (simp add: table_ok_def)
qed

lemma hashes_ok_filter: "hashes_ok table \<Longrightarrow> hashes_ok (filter P table)"
  unfolding hashes_ok_def by auto

lemma hashes_ok_add_to_count:
  assumes "hashes_ok table"
  shows "hashes_ok (map (add_to_count i d) table)"
  unfolding hashes_ok_def
proof (intro ballI impI)
  fix a b
  assume a: "a \<in> set (map (add_to_count i d) table)"
    and b: "b \<in> set (map (add_to_count i d) table)"
    and eq: "content_hash a \<noteq> None \<and> content_hash a = content_hash b"
  from a b obtain x y where x: "x \<in> set table" "a = add_to_count i d x"
    and y: "y \<in> set table" "b = add_to_count i d y"
    by auto
  have "content_hash a = content_hash x" "content_hash b = content_hash y"
    using x y by simp_all
  with eq have "content_hash x \<noteq> None \<and> content_hash x = content_hash y" by metis
  with assms x(1) y(1) have "x = y" unfolding hashes_ok_def by blast
  with x y show "a = b" by simp
qed

lemma filter_map_add_to_count:
  "filter (\<lambda>r. id_pk r \<noteq> k) (map (add_to_count i d) table)
     = map (add_to_count i d) (filter (\<lambda>r. id_pk r \<noteq> k) table)"
  by (induction table) simp_all

lemma table_ok_delete_duplicate:
  assumes ok: "table_ok table"
    and d: "d \<in> set table" "is_duplicate d" "referenced_file d = Some i"
  shows "table_ok (filter (\<lambda>r. id_pk r \<noteq> id_pk d) (map (add_to_count i (- 1)) table))"
proof -
  let ?f = "add_to_count i (- 1)"
  let ?keep = "filter (\<lambda>r. id_pk r \<noteq> id_pk d) table"
  let ?t = "map ?f ?keep"
  from ok have dist: "distinct (map id_pk table)" and l: "links_ok table"
    and hs: "hashes_ok table" and rc: "refcounts_ok table"
    by (simp_all add: table_ok_def)
  from links_ok_duplicate [OF l d(1,2)] d(3) obtain c where
    c: "c \<in> set table" "\<not> is_duplicate c" "id_pk c = i" by (metis option.inject)
  have in_t: "x \<in> set table \<Longrightarrow> \<not> is_duplicate x \<Longrightarrow> ?f x \<in> set ?t" for x
  proof -
    assume x: "x \<in> set table" "\<not> is_duplicate x"
    have "id_pk x \<noteq> id_pk d"
    proof
      assume "id_pk x = id_pk d"
      from same_key_same_row [OF dist x(1) d(1) this] x(2) d(2) show False by simp
    qed
    with x(1) show ?thesis by simp
  qed
  have dist': "distinct (map id_pk ?t)"
    using dist by (simp add: distinct_map_filter)
  have l': "links_ok ?t"
    unfolding links_ok_def
  proof
    fix r' assume "r' \<in> set ?t"
    then obtain r where r: "r \<in> set table" "r' = ?f r" by auto
    show "if is_duplicate r'
        then content_hash r' = None \<and>
             (\<exists>c \<in> set ?t. \<not> is_duplicate c \<and> referenced_file r' = Some (id_pk c))
        else referenced_file r' = None"
    proof (cases "is_duplicate r")
      case True
      from links_ok_duplicate [OF l r(1) True] obtain c' where
        c': "c' \<in> set table" "\<not> is_duplicate c'" "referenced_file r = Some (id_pk c')"
          "content_hash r = None" by metis
      from in_t [OF c'(1,2)] have "?f c' \<in> set ?t" .
      moreover have "\<not> is_duplicate (?f c')" "referenced_file r' = Some (id_pk (?f c'))"
        using c' r by simp_all
      ultimately have "\<exists>c \<in> set ?t. \<not> is_duplicate c \<and> referenced_file r' = Some (id_pk c)"
        by blast
      with True c' r show ?thesis by simp
    next
      case False
      with links_ok_original [OF l r(1) False] r show ?thesis by simp
    qed
  qed
  have hs': "hashes_ok ?t"
    by (intro hashes_ok_add_to_count hashes_ok_filter hs)
  have cnt: "count_dups table j = count_dups ?t j + (if j = i then 1 else 0)" for j
    using count_dups_remove [OF dist d(1), of j] d(2,3) by auto
  have rc': "refcounts_ok ?t"
    unfolding refcounts_ok_def
  proof
    fix r' assume "r' \<in> set ?t"
    then obtain r where r: "r \<in> set table" "r' = ?f r" by auto
    note rr = refcounts_ok_row [OF rc r(1)]
    show "reference_count r' =
        (if is_duplicate r' then 1 else 1 + int (count_dups ?t (id_pk r')))"
    proof (cases "is_duplicate r")
      case True
      have "id_pk r \<noteq> i"
      proof
        assume "id_pk r = i"
        with c(3) have "id_pk r = id_pk c" by simp
        from same_key_same_row [OF dist r(1) c(1) this] True c(2) show False by simp
      qed
      with True rr r show ?thesis by (simp add: add_to_count_def)
    next
      case False
      with rr r cnt [of "id_pk r"] show ?thesis by (simp add: add_to_count_def)
    qed
  qed
  from dist' l' hs' rc' have "table_ok ?t" by (simp add: table_ok_def)
  then show ?thesis by (simp add: filter_map_add_to_count)
qed

lemma table_ok_delete_original:
  assumes ok: "table_ok table"
    and c: "c \<in> set table" "\<not> is_duplicate c" "reference_count c \<le> 1"
  shows "table_ok (filter (\<lambda>r. id_pk r \<noteq> id_pk c) table)
     \<and> (\<forall>r \<in> set table. referenced_file r \<noteq> Some (id_pk c))"
proof -
  let ?t = "filter (\<lambda>r. id_pk r \<noteq> id_pk c) table"
  from ok have dist: "distinct (map id_pk table)" and l: "links_ok table"
    and hs: "hashes_ok table" and rc: "refcounts_ok table"
    by (simp_all add: table_ok_def)
  from refcounts_ok_row [OF rc c(1)] c(2,3) have "count_dups table (id_pk c) = 0" by simp
  then have nodup: "\<forall>r \<in> set table. \<not> (is_duplicate r \<and> referenced_file r = Some (id_pk c))"
    by (simp add: count_dups_zero)
  have free: "\<forall>r \<in> set table. referenced_file r \<noteq> Some (id_pk c)"
  proof
    fix r assume r: "r \<in> set table"
    show "referenced_file r \<noteq> Some (id_pk c)"
    proof (cases "is_duplicate r")
      case True
      with nodup r show ?thesis by blast
    next
      case False
      from links_ok_original [OF l r False] show ?thesis by simp
    qed
  qed
  have dist': "distinct (map id_pk ?t)"
    using dist by (simp add: distinct_map_filter)
  have l': "links_ok ?t"
    unfolding links_ok_def
  proof
    fix r assume "r \<in> set ?t"
    then have r: "r \<in> set table" by simp
    show "if is_duplicate r
        then content_hash r = None \<and>
             (\<exists>c \<in> set ?t. \<not> is_duplicate c \<and> referenced_file r = Some (id_pk c))
        else referenced_file r = None"
    proof (cases "is_duplicate r")
      case True
      from links_ok_duplicate [OF l r True] obtain c' where
        c': "c' \<in> set table" "\<not> is_duplicate c'" "referenced_file r = Some (id_pk c')"
          "content_hash r = None" by metis
      from free r c'(3) have "id_pk c' \<noteq> id_pk c" by auto
      with c'(1) have "c' \<in> set ?t" by simp
      with c'(2,3) have "\<exists>c \<in> set ?t. \<not> is_duplicate c \<and> referenced_file r = Some (id_pk c)"
        by blast
      with True c'(4) show ?thesis by simp
    next
      case False
      with links_ok_original [OF l r False] show ?thesis by simp
    qed
  qed
  have hs': "hashes_ok ?t" by (rule hashes_ok_filter [OF hs])
  have cnt: "count_dups table j = count_dups ?t j" for j
    using count_dups_remove [OF dist c(1), of j] c(2) by simp
  have rc': "refcounts_ok ?t"
    unfolding refcounts_ok_def
  proof
    fix r assume "r \<in> set ?t"
    then have r: "r \<in> set table" by simp
    from refcounts_ok_row [OF rc r] cnt [of "id_pk r"]
    show "reference_count r =
        (if is_duplicate r then 1 else 1 + int (count_dups ?t (id_pk r)))"
      by simp
  qed
  from dist' l' hs' rc' free show ?thesis by (simp add: table_ok_def)
qed

subsection \<open>The invariant holds in every state a run reaches\<close>

lemma inv_alt:
  "inv s \<longleftrightarrow> table_ok (rows s) \<and> (\<forall>r \<in> set (rows s). id_pk r < next_uuid s)
     \<and> (\<forall>kv \<in> set (storage s). uuid_of (fst kv) < next_uuid s)"
  by (auto simp: inv_def ids_ok_def table_ok_def)

lemma counts_not_negative:
  assumes "refcounts_ok table" and "r \<in> set table"
  shows "1 \<le> reference_count r"
  using refcounts_ok_row [OF assms] by (simp split: if_splits)

lemma holder_of_digest_is_original:
  assumes "links_ok table" and "e \<in> set table" and "content_hash e = Some h"
  shows "\<not> is_duplicate e"
proof
  assume "is_duplicate e"
  from links_ok_duplicate [OF assms(1,2) this] obtain c where "content_hash e = None" by metis
  with assms(3) show False by simp
qed

lemma inv_create_block:
  assumes i: "inv s"
  shows "inv (snd (atomic (create_block now (rows s) f h) s))"
proof -
  from i have ok: "table_ok (rows s)" and below: "\<forall>r \<in> set (rows s). id_pk r < next_uuid s"
    and blobs: "\<forall>kv \<in> set (storage s). uuid_of (fst kv) < next_uuid s"
    by (simp_all add: inv_alt)
  from ok have l: "links_ok (rows s)" and rc: "refcounts_ok (rows s)"
    by (simp_all add: table_ok_def)
  from filter_first_cases [of "rows s" h s] show ?thesis
  proof (elim disjE exE conjE)
    fix e
    assume ff: "filter_first (rows s) h (s, False) = (Inr (Some e), (s, False))"
      and e: "e \<in> set (rows s)" "content_hash e = Some h"
    have nn: "\<forall>r \<in> set (rows s). 0 \<le> reference_count r"
      using counts_not_negative [OF rc] by force
    let ?d = "duplicate_row s now f e"
    let ?s' = "s\<lparr>rows := map (add_to_count (id_pk e) 1) (rows s) @ [?d],
                  next_uuid := Suc (next_uuid s)\<rparr>"
    from ff link_duplicate_ok [OF below nn e(1), of now f]
    have "create_block now (rows s) f h (s, False) = (Inr (Response 201 (Data ?d)), (?s', False))"
      by (simp add: create_block_def then_do_def)
    then have st: "snd (atomic (create_block now (rows s) f h) s) = ?s'"
      by (simp add: atomic_def)
    have fresh: "\<forall>r \<in> set (rows s). id_pk r \<noteq> id_pk ?d"
      using below by (auto simp: duplicate_row_def)
    have "table_ok (rows ?s')"
      using table_ok_duplicate_upload [OF ok e(1) holder_of_digest_is_original [OF l e] fresh]
      by (simp add: duplicate_row_def)
    moreover have "\<forall>r \<in> set (rows ?s'). id_pk r < next_uuid ?s'"
      using below by (auto simp: duplicate_row_def less_Suc_eq)
    moreover have "\<forall>kv \<in> set (storage ?s'). uuid_of (fst kv) < next_uuid ?s'"
      using blobs by (auto simp: less_Suc_eq)
    ultimately show ?thesis unfolding st inv_alt by blast
  next
    assume ff: "filter_first (rows s) h (s, False) = (Inr None, (s, False))"
      and none: "\<forall>r \<in> set (rows s). content_hash r \<noteq> Some h"
    show ?thesis
    proof (cases "is_valid f")
      case (Inl e)
      from create_block_invalid [OF none Inl, of now] have
        "snd (atomic (create_block now (rows s) f h) s) = s"
        by (simp add: atomic_def)
      with i show ?thesis by simp
    next
      case (Inr v)
      show ?thesis
      proof (cases "length (stored_extension (name f)) < 83")
        case True
        let ?c = "canonical_row s now f v h"
        let ?s' = "s\<lparr>rows := rows s @ [?c],
           storage := (stored_as s (name f), content (file_body f)) # storage s,
           next_uuid := supply_after s (name f)\<rparr>"
        note new = stored_as_new [of s "name f"]
        from create_block_first_upload [OF below none Inr True, of now]
        have st: "snd (atomic (create_block now (rows s) f h) s) = ?s'"
          by (simp add: atomic_def)
        have fresh: "\<forall>r \<in> set (rows s). id_pk r \<noteq> id_pk ?c"
          using below by (auto simp: canonical_row_def)
        have hh: "\<forall>r \<in> set (rows s). content_hash r \<noteq> content_hash ?c"
          using none by (simp add: canonical_row_def)
        have "table_ok (rows ?s')"
          using table_ok_first_upload [OF ok fresh _ _ _ hh]
          by (simp add: canonical_row_def)
        moreover have "\<forall>r \<in> set (rows ?s'). id_pk r < next_uuid ?s'"
          using below new(3) by (auto simp: canonical_row_def)
        moreover have "\<forall>kv \<in> set (storage ?s'). uuid_of (fst kv) < next_uuid ?s'"
          using blobs new(2,3) by auto
        ultimately show ?thesis unfolding st inv_alt by blast
      next
        case False
        then have long: "83 \<le> length (stored_extension (name f))" by simp
        let ?s' = "s\<lparr>next_uuid := next_uuid s + 3\<rparr>"
        from create_block_name_too_long [OF none Inr long, of now s]
        have st: "snd (atomic (create_block now (rows s) f h) s) = ?s'"
          by (simp add: atomic_def)
        have "table_ok (rows ?s')" using ok by simp
        moreover have "\<forall>r \<in> set (rows ?s'). id_pk r < next_uuid ?s'"
          using below by auto
        moreover have "\<forall>kv \<in> set (storage ?s'). uuid_of (fst kv) < next_uuid ?s'"
          using blobs by auto
        ultimately show ?thesis unfolding st inv_alt by blast
      qed
    qed
  qed
qed

lemma inv_create:
  assumes "inv s"
  shows "inv (snd (create H now (rows s) s req))"
proof (cases req)
  case None
  with assms show ?thesis by (simp add: create_def)
next
  case (Some f)
  show ?thesis
  proof (cases "name f = []")
    case True
    with Some assms show ?thesis by (simp add: create_def)
  next
    case False
    obtain r fb where h: "compute_file_hash H (file_body f) 8192 = (r, fb)"
      by (cases "compute_file_hash H (file_body f) 8192")
    show ?thesis
    proof (cases r)
      case (Inl e)
      with Some False h assms show ?thesis by (simp add: create_def)
    next
      case (Inr d)
      with Some False h inv_create_block [OF assms, of now "f\<lparr>file_body := fb\<rparr>" d]
      show ?thesis by (simp add: create_def)
    qed
  qed
qed

lemma inv_destroy:
  assumes i: "inv s"
  shows "inv (snd (destroy s pk))"
proof (cases "get_object s pk")
  case (Inl e)
  with i show ?thesis by (simp add: destroy_missing)
next
  case (Inr r)
  from i have ok: "table_ok (rows s)" and below: "\<forall>r \<in> set (rows s). id_pk r < next_uuid s"
    and blobs: "\<forall>kv \<in> set (storage s). uuid_of (fst kv) < next_uuid s"
    by (simp_all add: inv_alt)
  from ok have dist: "distinct (map id_pk (rows s))" and l: "links_ok (rows s)"
    and rc: "refcounts_ok (rows s)"
    by (simp_all add: table_ok_def)
  from get_object_found [OF Inr] have r: "r \<in> set (rows s)" "id_pk r = pk" by simp_all
  show ?thesis
  proof (cases "is_duplicate r")
    case True
    from links_ok_duplicate [OF l r(1) True] obtain c where
      c: "c \<in> set (rows s)" "\<not> is_duplicate c" "referenced_file r = Some (id_pk c)" by metis
    have ex: "id_pk c \<in> id_pk ` set (rows s)" using c(1) by simp
    have pos: "\<forall>x \<in> set (rows s). id_pk x = id_pk c \<longrightarrow> 1 \<le> reference_count x"
      using counts_not_negative [OF rc] by simp
    have free: "\<forall>x \<in> set (rows s). referenced_file x \<noteq> Some pk"
    proof
      fix x assume x: "x \<in> set (rows s)"
      show "referenced_file x \<noteq> Some pk"
      proof (cases "is_duplicate x")
        case dx: True
        from links_ok_duplicate [OF l x dx] obtain c' where
          c': "c' \<in> set (rows s)" "\<not> is_duplicate c'" "referenced_file x = Some (id_pk c')"
          by metis
        have "id_pk c' \<noteq> pk"
        proof
          assume "id_pk c' = pk"
          with r(2) have "id_pk c' = id_pk r" by simp
          from same_key_same_row [OF dist c'(1) r(1) this] c'(2) True show False by simp
        qed
        with c'(3) show ?thesis by simp
      next
        case False
        from links_ok_original [OF l x False] show ?thesis by simp
      qed
    qed
    let ?s' = "s\<lparr>rows := filter (\<lambda>x. id_pk x \<noteq> pk) (map (add_to_count (id_pk c) (- 1)) (rows s))\<rparr>"
    from destroy_duplicate_ok [OF Inr True c(3) ex pos free]
    have st: "snd (destroy s pk) = ?s'" by simp
    have "table_ok (rows ?s')"
      using table_ok_delete_duplicate [OF ok r(1) True c(3)] r(2) by simp
    moreover have "\<forall>x \<in> set (rows ?s'). id_pk x < next_uuid ?s'"
      using below by auto
    moreover have "\<forall>kv \<in> set (storage ?s'). uuid_of (fst kv) < next_uuid ?s'"
      using blobs by simp
    ultimately show ?thesis unfolding st inv_alt by blast
  next
    case False
    show ?thesis
    proof (cases "1 < reference_count r")
      case True
      from destroy_protected_eq [OF Inr False True] i show ?thesis by simp
    next
      case few: False
      then have le: "reference_count r \<le> 1" by simp
      from table_ok_delete_original [OF ok r(1) False le] r(2)
      have ok': "table_ok (filter (\<lambda>x. id_pk x \<noteq> pk) (rows s))"
        and free: "\<forall>x \<in> set (rows s). referenced_file x \<noteq> Some pk"
        by simp_all
      let ?s' = "s\<lparr>rows := filter (\<lambda>x. id_pk x \<noteq> pk) (rows s),
        storage := (case file_field r of
                      None \<Rightarrow> storage s
                    | Some l \<Rightarrow> filter (\<lambda>kv. fst kv \<noteq> l) (storage s))\<rparr>"
      from destroy_original_ok [OF Inr False le free]
      have st: "snd (destroy s pk) = ?s'" by simp
      have "table_ok (rows ?s')" using ok' by simp
      moreover have "\<forall>x \<in> set (rows ?s'). id_pk x < next_uuid ?s'"
        using below by auto
      moreover have "\<forall>kv \<in> set (storage ?s'). uuid_of (fst kv) < next_uuid ?s'"
        using blobs by (auto split: option.splits)
      ultimately show ?thesis unfolding st inv_alt by blast
    qed
  qed
qed

lemma inv_initial: "inv initial"
  by (simp add: inv_def ids_ok_def links_ok_def hashes_ok_def refcounts_ok_def initial_def)

lemma inv_step: "inv s \<Longrightarrow> inv (step H s request)"
  by (cases request) (simp_all add: inv_create inv_destroy)

lemma inv_run: "inv (run H requests)"
proof (induction requests rule: rev_induct)
  case Nil
  show ?case by (simp add: run_def inv_initial)
next
  case (snoc request requests)
  then show ?case by (simp add: run_def inv_step)
qed

subsection \<open>A first upload\<close>

lemma get_object_exact:
  assumes "distinct (map id_pk (rows s))" and "r \<in> set (rows s)"
  shows "get_object s (id_pk r) = Inr r"
proof -
  from assms(2) have "filter (\<lambda>x. id_pk x = id_pk r) (rows s) \<noteq> []"
    by (auto simp: filter_empty_conv)
  then obtain x xs where f: "filter (\<lambda>x. id_pk x = id_pk r) (rows s) = x # xs"
    by (cases "filter (\<lambda>x. id_pk x = id_pk r) (rows s)") auto
  then have "x \<in> set (filter (\<lambda>x. id_pk x = id_pk r) (rows s))" by simp
  then have "x \<in> set (rows s)" "id_pk x = id_pk r" by simp_all
  from same_key_same_row [OF assms(1) this(1) assms(2) this(2)] f show ?thesis
    by (simp add: get_object_def)
qed

lemma get_object_none:
  "\<forall>r \<in> set (rows s). id_pk r \<noteq> pk \<Longrightarrow> get_object s pk = Inl Http404"
  by (simp add: get_object_def filter_empty_conv [THEN iffD2])

lemma is_valid_named: "is_valid f = Inr v \<Longrightarrow> name f \<noteq> []"
  by (auto simp: is_valid_def file_field_errors_def Let_def split: if_splits)

text \<open>
  A first upload that the serializer accepts and whose storage name cannot be cut to the
  100 characters of the \<^verbatim>\<open>FileField\<close> (its extension has 83 characters or more) is
  refused by the storage: \<^verbatim>\<open>SuspiciousFileOperation\<close> leaves the view, and neither a
  row nor a file is created.
\<close>

lemma create_name_too_long:
  assumes readable: "fault (file_body f) = None"
    and valid: "is_valid f = Inr v"
    and long: "83 \<le> length (valid_extension (extension (name f)))"
    and new: "\<forall>r \<in> set (rows s). content_hash r \<noteq> Some (H (content (file_body f)))"
  shows "create H now (rows s) s (Some f) =
     (Inl SuspiciousFileOperation, s\<lparr>next_uuid := next_uuid s + 3\<rparr>)"
proof -
  have same: "f\<lparr>file_body := file_body f\<rparr> = f" by simp
  from long have "83 \<le> length (stored_extension (name f))"
    by (simp add: stored_extension_def)
  from create_block_name_too_long [OF new valid this, of now s] is_valid_named [OF valid]
  show ?thesis
    by (simp add: create_def compute_file_hash_ok [OF readable] same atomic_def)
qed

text \<open>
  C1, as amended. In a state that satisfies the invariant (every state a run reaches
  does), an upload that the serializer accepts, whose bytes can be read, whose extension
  (what follows the last dot of its name, made valid by the storage) has fewer than 83
  characters and whose digest no row carries, served alone, is answered 201 with a new
  original: its \<open>content_hash\<close> is the digest of the bytes, \<open>is_duplicate\<close> is false,
  \<open>reference_count\<close> is 1, \<open>referenced_file\<close> is null, and the bytes are stored under a
  locator that the storage did not hold. Nothing else changes but the identifier supply.
\<close>

theorem first_upload_creates_original:
  assumes i: "inv s"
    and readable: "fault (file_body f) = None"
    and valid: "is_valid f = Inr v"
    and fits: "length (valid_extension (extension (name f))) < 83"
    and new: "\<forall>r \<in> set (rows s). content_hash r \<noteq> Some (H (content (file_body f)))"
  shows "\<exists>r l n. create H now (rows s) s (Some f) =
           (Inr (Response 201 (Data r)),
            s\<lparr>rows := rows s @ [r],
              storage := (l, content (file_body f)) # storage s,
              next_uuid := n\<rparr>)
         \<and> content_hash r = Some (H (content (file_body f)))
         \<and> \<not> is_duplicate r \<and> reference_count r = 1 \<and> referenced_file r = None
         \<and> file_field r = Some l \<and> l \<notin> fst ` set (storage s)"
proof -
  let ?h = "H (content (file_body f))"
  let ?l = "stored_as s (name f)"
  let ?r = "canonical_row s now f v ?h"
  from i have below: "\<forall>r \<in> set (rows s). id_pk r < next_uuid s"
    and blobs: "\<forall>kv \<in> set (storage s). uuid_of (fst kv) < next_uuid s"
    by (simp_all add: inv_alt)
  have same: "f\<lparr>file_body := file_body f\<rparr> = f" by simp
  from fits have fits': "length (stored_extension (name f)) < 83"
    by (simp add: stored_extension_def)
  from create_block_first_upload [OF below new valid fits', of now]
  have "create H now (rows s) s (Some f) =
      (Inr (Response 201 (Data ?r)),
       s\<lparr>rows := rows s @ [?r], storage := (?l, content (file_body f)) # storage s,
         next_uuid := supply_after s (name f)\<rparr>)"
    using is_valid_named [OF valid]
    by (simp add: create_def compute_file_hash_ok [OF readable] same atomic_def)
  moreover have "?l \<notin> fst ` set (storage s)"
  proof
    assume "?l \<in> fst ` set (storage s)"
    then obtain kv where "kv \<in> set (storage s)" "fst kv = ?l" by auto
    with blobs have "uuid_of ?l < next_uuid s" by auto
    with stored_as_new(1) [of s "name f"] show False by simp
  qed
  moreover have "content_hash ?r = Some ?h" "\<not> is_duplicate ?r" "reference_count ?r = 1"
    "referenced_file ?r = None" "file_field ?r = Some ?l"
    by (simp_all add: canonical_row_def)
  ultimately show ?thesis by blast
qed

theorem first_upload_creates_original_witness:
  "\<exists>r l n. create plain_digest 5 (rows initial) initial (Some (upload ''a.txt'' [1, 2, 3])) =
           (Inr (Response 201 (Data r)),
            initial\<lparr>rows := rows initial @ [r],
              storage := (l, [1, 2, 3]) # storage initial,
              next_uuid := n\<rparr>)
         \<and> content_hash r = Some (plain_digest [1, 2, 3])
         \<and> \<not> is_duplicate r \<and> reference_count r = 1 \<and> referenced_file r = None
         \<and> file_field r = Some l \<and> l \<notin> fst ` set (storage initial)"
proof -
  have v: "is_valid (upload ''a.txt'' [1, 2, 3]) = Inr (''a.txt'', ''text/plain'')"
    by (simp add: is_valid_def upload_def file_field_errors_def char_field_errors_def
        size_field_errors_def size_of_def strip_def is_space_def)
  have r: "fault (file_body (upload ''a.txt'' [1, 2, 3])) = None"
    by (simp add: upload_def)
  have e: "length (valid_extension (extension (name (upload ''a.txt'' [1, 2, 3])))) < 83"
    by (simp add: upload_def extension_def valid_extension_def word_char_def is_space_def)
  have n: "\<forall>r \<in> set (rows initial).
      content_hash r \<noteq> Some (plain_digest (content (file_body (upload ''a.txt'' [1, 2, 3]))))"
    by (simp add: initial_def)
  from first_upload_creates_original
    [where H = plain_digest and now = 5, OF inv_initial r v e n]
  show ?thesis by (simp add: upload_def)
qed

text \<open>
  C1 as stated fails: an upload without bytes has a digest that no row carries, and
  \<^verbatim>\<open>serializer.is_valid(raise_exception=True)\<close> refuses it (\<^verbatim>\<open>FileField\<close> does
  not allow an empty file); no row is created.
\<close>

theorem empty_upload_refused:
  "rows initial = [] \<and>
   create plain_digest 5 (rows initial) initial (Some (upload ''a.txt'' [])) =
     (Inl (ValidationError [(''file'', ''empty'')]), initial)"
  by (simp add: initial_def create_def upload_def compute_file_hash_ok
     create_block_def then_do_def filter_first_def objects_all_def try_except_def raise_def
     is_valid_def file_field_errors_def char_field_errors_def
      size_field_errors_def size_of_def strip_def is_space_def atomic_def)

subsection \<open>A repeated upload\<close>

lemma filter_first_holder:
  assumes "hashes_ok table" and "e \<in> set table" and "content_hash e = Some h"
  shows "filter_first table h (s, False) = (Inr (Some e), (s, False))"
proof -
  from filter_first_cases [of table h s] assms(2,3) obtain e' where
    f: "filter_first table h (s, False) = (Inr (Some e'), (s, False))"
    and e': "e' \<in> set table" "content_hash e' = Some h"
    by auto
  from assms(3) e'(2) have "content_hash e \<noteq> None \<and> content_hash e = content_hash e'" by simp
  with assms(1,2) e'(1) have "e = e'" unfolding hashes_ok_def by blast
  with f show ?thesis by simp
qed

text \<open>
  C2. In a state that satisfies the invariant (every state a run reaches does), an
  upload (a named file whose bytes can be read) whose digest the row \<open>e\<close> carries,
  served alone, is answered 201 with a new duplicate row:
  no \<open>content_hash\<close>, \<open>is_duplicate\<close> true, \<open>referenced_file\<close> the key of \<open>e\<close>,
  \<open>reference_count\<close> 1, and the stored file of \<open>e\<close>. The storage is unchanged, and the
  only other change to the table is that the count of \<open>e\<close> went up by 1, in one
  \<^verbatim>\<open>UPDATE\<close> statement.
\<close>

theorem repeated_upload_creates_duplicate:
  assumes i: "inv s"
    and named: "name f \<noteq> []"
    and readable: "fault (file_body f) = None"
    and e: "e \<in> set (rows s)" "content_hash e = Some (H (content (file_body f)))"
  shows "\<exists>d. create H now (rows s) s (Some f) =
           (Inr (Response 201 (Data d)),
            s\<lparr>rows := map (add_to_count (id_pk e) 1) (rows s) @ [d],
              next_uuid := Suc (next_uuid s)\<rparr>)
         \<and> content_hash d = None \<and> is_duplicate d \<and> referenced_file d = Some (id_pk e)
         \<and> reference_count d = 1 \<and> file_field d = file_field e
         \<and> storage (snd (create H now (rows s) s (Some f))) = storage s
         \<and> get_object (snd (create H now (rows s) s (Some f))) (id_pk e)
             = Inr (e\<lparr>reference_count := reference_count e + 1\<rparr>)"
proof -
  let ?h = "H (content (file_body f))"
  let ?d = "duplicate_row s now f e"
  let ?s' = "s\<lparr>rows := map (add_to_count (id_pk e) 1) (rows s) @ [?d],
                next_uuid := Suc (next_uuid s)\<rparr>"
  from i have ok: "table_ok (rows s)" and below: "\<forall>r \<in> set (rows s). id_pk r < next_uuid s"
    by (simp_all add: inv_alt)
  from ok have hs: "hashes_ok (rows s)" and rc: "refcounts_ok (rows s)"
    by (simp_all add: table_ok_def)
  have nn: "\<forall>r \<in> set (rows s). 0 \<le> reference_count r"
    using counts_not_negative [OF rc] by force
  have same: "f\<lparr>file_body := file_body f\<rparr> = f" by simp
  from filter_first_holder [OF hs e, of s] link_duplicate_ok [OF below nn e(1), of now f]
  have "create_block now (rows s) f ?h (s, False) = (Inr (Response 201 (Data ?d)), (?s', False))"
    by (simp add: create_block_def then_do_def)
  with named have c: "create H now (rows s) s (Some f) = (Inr (Response 201 (Data ?d)), ?s')"
    by (simp add: create_def compute_file_hash_ok [OF readable] same atomic_def)
  have "inv ?s'" using inv_create [OF i, of H now "Some f"] c by simp
  then have dist: "distinct (map id_pk (rows ?s'))" by (simp add: inv_alt table_ok_def)
  have "add_to_count (id_pk e) 1 e \<in> set (rows ?s')" using e(1) by simp
  from get_object_exact [OF dist this]
  have g: "get_object ?s' (id_pk e) = Inr (e\<lparr>reference_count := reference_count e + 1\<rparr>)"
    by (simp add: add_to_count_def)
  have "content_hash ?d = None" "is_duplicate ?d" "referenced_file ?d = Some (id_pk e)"
    "reference_count ?d = 1" "file_field ?d = file_field e"
    by (simp_all add: duplicate_row_def)
  with c g show ?thesis by auto
qed

lemma inv_one_file: "inv one_file"
  by (simp add: inv_def ids_ok_def links_ok_def hashes_ok_def refcounts_ok_def one_file_def
      original_a_def count_dups_def)

lemma inv_two_files: "inv two_files"
  by (simp add: inv_def ids_ok_def links_ok_def hashes_ok_def refcounts_ok_def two_files_def
      original_a_def duplicate_b_def count_dups_def)

theorem repeated_upload_creates_duplicate_witness:
  "create plain_digest 6 (rows one_file) one_file (Some (upload ''b.txt'' [1, 2, 3]))
     = (Inr (Response 201 (Data duplicate_b)), two_files)
   \<and> get_object two_files 0 = Inr (original_a\<lparr>reference_count := 2\<rparr>)"
proof -
  have n: "name (upload ''b.txt'' [1, 2, 3]) \<noteq> []"
    and r: "fault (file_body (upload ''b.txt'' [1, 2, 3])) = None"
    by (simp_all add: upload_def)
  have e: "original_a \<in> set (rows one_file)"
    "content_hash original_a
       = Some (plain_digest (content (file_body (upload ''b.txt'' [1, 2, 3]))))"
    by (simp_all add: one_file_def original_a_def upload_def)
  from repeated_upload_creates_duplicate
    [where H = plain_digest and now = 6, OF inv_one_file n r e]
  obtain d where
    c: "create plain_digest 6 (rows one_file) one_file (Some (upload ''b.txt'' [1, 2, 3])) =
         (Inr (Response 201 (Data d)),
          one_file\<lparr>rows := map (add_to_count (id_pk original_a) 1) (rows one_file) @ [d],
            next_uuid := Suc (next_uuid one_file)\<rparr>)"
    and d: "content_hash d = None" "is_duplicate d" "referenced_file d = Some (id_pk original_a)"
      "reference_count d = 1" "file_field d = file_field original_a"
    and g: "get_object (snd (create plain_digest 6 (rows one_file) one_file
               (Some (upload ''b.txt'' [1, 2, 3])))) (id_pk original_a)
             = Inr (original_a\<lparr>reference_count := reference_count original_a + 1\<rparr>)"
    by blast
  have "create plain_digest 6 (rows one_file) one_file (Some (upload ''b.txt'' [1, 2, 3]))
     = (Inr (Response 201 (Data duplicate_b)), two_files)"
    by (simp add: create_def upload_def compute_file_hash_ok create_block_def then_do_def
        filter_first_def objects_all_def link_duplicate_def uuid4_def insert_row_def
        violates_def update_reference_count_def get_by_pk_def ok_def atomic_def size_of_def
        add_to_count_def one_file_def two_files_def original_a_def duplicate_b_def)
  with g show ?thesis by (simp add: original_a_def)
qed

subsection \<open>A concurrent upload of the same bytes\<close>

text \<open>
  Another request inserts the digest between the lookup and the save: the lookup saw no
  row with it (\<open>unseen\<close>), the table now holds one (\<open>won\<close>). The \<^verbatim>\<open>INSERT\<close> raises
  \<^verbatim>\<open>IntegrityError\<close> after the upload was written to the storage; the handler runs
  inside the same atomic block, which the failed statement has marked for rollback, so its
  first query raises \<^verbatim>\<open>TransactionManagementError\<close>. That exception leaves the view,
  and the written file stays in the storage.
\<close>

lemma create_conflict:
  assumes named: "name f \<noteq> []"
    and readable: "fault (file_body f) = None"
    and valid: "is_valid f = Inr v"
    and fits: "length (stored_extension (name f)) < 83"
    and unseen: "\<forall>r \<in> set seen. content_hash r \<noteq> Some (H (content (file_body f)))"
    and won: "\<exists>r \<in> set (rows s). content_hash r = Some (H (content (file_body f)))"
  shows "create H now seen s (Some f) =
     (Inl TransactionManagementError,
      s\<lparr>storage := (stored_as s (name f), content (file_body f)) # storage s,
        next_uuid := supply_after s (name f)\<rparr>)"
proof -
  let ?h = "H (content (file_body f))"
  let ?s' = "s\<lparr>storage := (stored_as s (name f), content (file_body f)) # storage s,
        next_uuid := supply_after s (name f)\<rparr>"
  have same: "f\<lparr>file_body := file_body f\<rparr> = f" by simp
  from won obtain r where "r \<in> set (rows s)" "content_hash r = Some ?h" by blast
  then have "Some ?h \<in> content_hash ` set (rows s)" by force
  then have v: "violates (rows s) (canonical_row s now f v ?h)"
    by (simp add: violates_def canonical_row_def)
  then have sv: "serializer_save now f v ?h (s, False) = (Inl IntegrityError, (?s', True))"
    by (simp add: serializer_save_def then_do_def uuid4_def storage_save_fits [OF fits]
        insert_row_def canonical_row_def)
  have "create_block now seen f ?h (s, False) = (Inl TransactionManagementError, (?s', True))"
    by (simp add: create_block_def then_do_def filter_first_none [OF unseen] try_except_def
        valid sv objects_get_def)
  with named show ?thesis
    by (simp add: create_def compute_file_hash_ok [OF readable] same atomic_def)
qed

text \<open>
  C3, on the code: the second of two concurrent uploads of the bytes 1, 2, 3, whose lookup
  ran before the first was committed, is not answered with a duplicate; the
  \<^verbatim>\<open>TransactionManagementError\<close> reaches the caller, no row is created, the count of
  the original stays 1, and the file written for the failed insert is not discarded.
\<close>

theorem conflict_surfaces_to_caller:
  "create plain_digest 6 [] one_file (Some (upload ''b.txt'' [1, 2, 3])) =
     (Inl TransactionManagementError,
      one_file\<lparr>storage := (Upload 3 ''txt'', [1, 2, 3]) # storage one_file, next_uuid := 4\<rparr>)"
proof -
  have v: "is_valid (upload ''b.txt'' [1, 2, 3]) = Inr (''b.txt'', ''text/plain'')"
    by (simp add: is_valid_def upload_def file_field_errors_def char_field_errors_def
        size_field_errors_def size_of_def strip_def is_space_def)
  have e: "stored_extension (name (upload ''b.txt'' [1, 2, 3])) = ''txt''"
    by (simp add: upload_def stored_extension_def extension_def valid_extension_def
        word_char_def is_space_def)
  have "create plain_digest 6 [] one_file (Some (upload ''b.txt'' [1, 2, 3])) =
     (Inl TransactionManagementError,
      one_file\<lparr>storage := (stored_as one_file (name (upload ''b.txt'' [1, 2, 3])),
                             content (file_body (upload ''b.txt'' [1, 2, 3])))
                     # storage one_file,
        next_uuid := supply_after one_file (name (upload ''b.txt'' [1, 2, 3]))\<rparr>)"
    by (rule create_conflict [OF _ _ v])
      (simp_all add: e, simp_all add: upload_def one_file_def original_a_def)
  then show ?thesis
    by (simp add: e stored_as_def supply_after_def, simp add: upload_def one_file_def)
qed

subsection \<open>Reference counts\<close>

lemma run_snoc: "run H (requests @ [request]) = step H (run H requests) request"
  by (simp add: run_def)

lemma run_one_file:
  "run plain_digest [Ingest 5 (Some (upload ''a.txt'' [1, 2, 3]))] = one_file"
  by (simp add: run_def initial_def create_def upload_def compute_file_hash_ok
      create_block_def then_do_def filter_first_def objects_all_def try_except_def
      is_valid_def file_field_errors_def char_field_errors_def size_field_errors_def
      size_of_def strip_def is_space_def serializer_save_def uuid4_def storage_save_def
      storage_write_def get_available_name_def generate_filename_def file_upload_path_def
      extension_def valid_extension_def word_char_def
      insert_row_def violates_def ok_def atomic_def one_file_def original_a_def)

lemma create_two_files:
  "create plain_digest 6 (rows one_file) one_file (Some (upload ''b.txt'' [1, 2, 3]))
     = (Inr (Response 201 (Data duplicate_b)), two_files)"
  by (simp add: create_def upload_def compute_file_hash_ok create_block_def then_do_def
        filter_first_def objects_all_def link_duplicate_def uuid4_def insert_row_def
        violates_def update_reference_count_def get_by_pk_def ok_def atomic_def size_of_def
        add_to_count_def one_file_def two_files_def original_a_def duplicate_b_def)

lemma run_two_files:
  "run plain_digest [Ingest 5 (Some (upload ''a.txt'' [1, 2, 3])),
                     Ingest 6 (Some (upload ''b.txt'' [1, 2, 3]))] = two_files"
  using run_snoc [of plain_digest "[Ingest 5 (Some (upload ''a.txt'' [1, 2, 3]))]"
      "Ingest 6 (Some (upload ''b.txt'' [1, 2, 3]))"]
  by (simp add: run_one_file create_two_files)

text \<open>
  C4. After every sequence of uploads and deletions, served one after the other from the
  empty system, the \<open>reference_count\<close> of every original is 1 plus the number of live
  duplicates that reference it, and the \<open>reference_count\<close> of every duplicate is 1.
\<close>

theorem reference_counts_match:
  "\<forall>r \<in> set (rows (run H requests)).
     reference_count r =
       (if is_duplicate r then 1
        else 1 + int (count_dups (rows (run H requests)) (id_pk r)))"
  using inv_run [of H requests] by (simp add: inv_def refcounts_ok_def)

theorem reference_counts_match_witness:
  "rows (run plain_digest [Ingest 5 (Some (upload ''a.txt'' [1, 2, 3])),
                           Ingest 6 (Some (upload ''b.txt'' [1, 2, 3]))])
     = [original_a\<lparr>reference_count := 2\<rparr>, duplicate_b]
   \<and> reference_count (original_a\<lparr>reference_count := 2\<rparr>)
       = 1 + int (count_dups [original_a\<lparr>reference_count := 2\<rparr>, duplicate_b] 0)
   \<and> reference_count duplicate_b = 1"
  using reference_counts_match [of plain_digest
      "[Ingest 5 (Some (upload ''a.txt'' [1, 2, 3])),
        Ingest 6 (Some (upload ''b.txt'' [1, 2, 3]))]"]
  by (simp add: run_two_files two_files_def original_a_def duplicate_b_def)

subsection \<open>Deletion\<close>

text \<open>
  C5. Deleting an original whose \<open>reference_count\<close> is greater than 1 raises
  \<^verbatim>\<open>PermissionDenied\<close>, and the state (table, storage, identifier supply) is what it
  was.
\<close>

theorem delete_protected_original:
  assumes "get_object s pk = Inr r" and "\<not> is_duplicate r" and "1 < reference_count r"
  shows "destroy s pk =
     (Inl (PermissionDenied
        ''Cannot delete original file that has duplicates. Delete duplicates first.''), s)"
  using assms by (rule destroy_protected_eq)

theorem delete_protected_original_witness:
  "get_object two_files 0 = Inr (original_a\<lparr>reference_count := 2\<rparr>)
   \<and> destroy two_files 0 =
     (Inl (PermissionDenied
        ''Cannot delete original file that has duplicates. Delete duplicates first.''),
      two_files)"
proof -
  have g: "get_object two_files 0 = Inr (original_a\<lparr>reference_count := 2\<rparr>)"
    by (simp add: get_object_def two_files_def original_a_def duplicate_b_def)
  from delete_protected_original [OF g] g show ?thesis
    by (simp add: original_a_def)
qed

text \<open>
  C6. In a state that satisfies the invariant (every state a run reaches does), deleting
  a duplicate \<open>d\<close> is answered 204:
  \<open>d\<close> references an original \<open>c\<close> of the table; afterwards the table is the old one
  without \<open>d\<close> and with the count of \<open>c\<close> lowered by 1 (one \<^verbatim>\<open>UPDATE\<close>), \<open>d\<close> is
  no longer found, and the storage is untouched.
\<close>

theorem delete_duplicate:
  assumes i: "inv s" and g: "get_object s pk = Inr d" and dup: "is_duplicate d"
  shows "\<exists>c. referenced_file d = Some (id_pk c) \<and> get_object s (id_pk c) = Inr c
           \<and> \<not> is_duplicate c
           \<and> destroy s pk =
               (Inr (Response 204 Empty),
                s\<lparr>rows := filter (\<lambda>r. id_pk r \<noteq> pk)
                             (map (add_to_count (id_pk c) (- 1)) (rows s))\<rparr>)
           \<and> get_object (snd (destroy s pk)) (id_pk c)
               = Inr (c\<lparr>reference_count := reference_count c - 1\<rparr>)
           \<and> get_object (snd (destroy s pk)) pk = Inl Http404
           \<and> storage (snd (destroy s pk)) = storage s"
proof -
  from i have ok: "table_ok (rows s)" by (simp add: inv_alt)
  then have dist: "distinct (map id_pk (rows s))" and l: "links_ok (rows s)"
    and rc: "refcounts_ok (rows s)"
    by (simp_all add: table_ok_def)
  from get_object_found [OF g] have d: "d \<in> set (rows s)" "id_pk d = pk" by simp_all
  from links_ok_duplicate [OF l d(1) dup] obtain c where
    c: "c \<in> set (rows s)" "\<not> is_duplicate c" "referenced_file d = Some (id_pk c)" by metis
  have ne: "id_pk c \<noteq> pk"
  proof
    assume "id_pk c = pk"
    with d(2) have "id_pk c = id_pk d" by simp
    from same_key_same_row [OF dist c(1) d(1) this] c(2) dup show False by simp
  qed
  have ex: "id_pk c \<in> id_pk ` set (rows s)" using c(1) by simp
  have pos: "\<forall>x \<in> set (rows s). id_pk x = id_pk c \<longrightarrow> 1 \<le> reference_count x"
    using counts_not_negative [OF rc] by simp
  have free: "\<forall>x \<in> set (rows s). referenced_file x \<noteq> Some pk"
  proof
    fix x assume x: "x \<in> set (rows s)"
    show "referenced_file x \<noteq> Some pk"
    proof (cases "is_duplicate x")
      case True
      from links_ok_duplicate [OF l x True] obtain c' where
        c': "c' \<in> set (rows s)" "\<not> is_duplicate c'" "referenced_file x = Some (id_pk c')"
        by metis
      have "id_pk c' \<noteq> pk"
      proof
        assume "id_pk c' = pk"
        with d(2) have "id_pk c' = id_pk d" by simp
        from same_key_same_row [OF dist c'(1) d(1) this] c'(2) dup show False by simp
      qed
      with c'(3) show ?thesis by simp
    next
      case False
      from links_ok_original [OF l x False] show ?thesis by simp
    qed
  qed
  let ?s' = "s\<lparr>rows := filter (\<lambda>r. id_pk r \<noteq> pk) (map (add_to_count (id_pk c) (- 1)) (rows s))\<rparr>"
  from destroy_duplicate_ok [OF g dup c(3) ex pos free]
  have des: "destroy s pk = (Inr (Response 204 Empty), ?s')" .
  have "inv ?s'" using inv_destroy [OF i, of pk] des by simp
  then have dist': "distinct (map id_pk (rows ?s'))" by (simp add: inv_alt table_ok_def)
  have "add_to_count (id_pk c) (- 1) c \<in> set (rows ?s')" using c(1) ne by simp
  from get_object_exact [OF dist' this]
  have g1: "get_object ?s' (id_pk c) = Inr (c\<lparr>reference_count := reference_count c - 1\<rparr>)"
    by (simp add: add_to_count_def)
  have g2: "get_object ?s' pk = Inl Http404"
    by (rule get_object_none) simp
  from get_object_exact [OF dist c(1)] c des g1 g2 show ?thesis by auto
qed

theorem delete_duplicate_witness:
  "get_object two_files 2 = Inr duplicate_b
   \<and> destroy two_files 2 = (Inr (Response 204 Empty), one_file\<lparr>next_uuid := 3\<rparr>)
   \<and> get_object (one_file\<lparr>next_uuid := 3\<rparr>) 0 = Inr original_a
   \<and> get_object (one_file\<lparr>next_uuid := 3\<rparr>) 2 = Inl Http404
   \<and> storage (one_file\<lparr>next_uuid := 3\<rparr>) = storage two_files"
proof -
  have g: "get_object two_files 2 = Inr duplicate_b"
    by (simp add: get_object_def two_files_def original_a_def duplicate_b_def)
  have dup: "is_duplicate duplicate_b" by (simp add: duplicate_b_def)
  from delete_duplicate [OF inv_two_files g dup] obtain c where
    all: "referenced_file duplicate_b = Some (id_pk c) \<and> get_object two_files (id_pk c) = Inr c
           \<and> \<not> is_duplicate c
           \<and> destroy two_files 2 =
               (Inr (Response 204 Empty),
                two_files\<lparr>rows := filter (\<lambda>r. id_pk r \<noteq> 2)
                             (map (add_to_count (id_pk c) (- 1)) (rows two_files))\<rparr>)
           \<and> get_object (snd (destroy two_files 2)) (id_pk c)
               = Inr (c\<lparr>reference_count := reference_count c - 1\<rparr>)
           \<and> get_object (snd (destroy two_files 2)) 2 = Inl Http404
           \<and> storage (snd (destroy two_files 2)) = storage two_files" ..
  then have c: "referenced_file duplicate_b = Some (id_pk c)"
    and des: "destroy two_files 2 =
               (Inr (Response 204 Empty),
                two_files\<lparr>rows := filter (\<lambda>r. id_pk r \<noteq> 2)
                             (map (add_to_count (id_pk c) (- 1)) (rows two_files))\<rparr>)"
    by blast+
  from c have "id_pk c = 0" by (simp add: duplicate_b_def)
  with des have "destroy two_files 2 = (Inr (Response 204 Empty), one_file\<lparr>next_uuid := 3\<rparr>)"
    by (simp add: two_files_def one_file_def add_to_count_def original_a_def duplicate_b_def)
  with g show ?thesis
    by (simp add: get_object_def two_files_def one_file_def original_a_def)
qed

text \<open>
  C7. In a state that satisfies the invariant (every state a run reaches does), deleting
  an original whose \<open>reference_count\<close> is at most 1 is answered 204: its stored file is removed from the
  storage and its row from the table, so that afterwards neither the row nor the file can
  be retrieved. All other rows and files stay.
\<close>

theorem delete_free_original:
  assumes i: "inv s" and g: "get_object s pk = Inr r" and orig: "\<not> is_duplicate r"
    and cnt: "reference_count r \<le> 1"
  shows "destroy s pk =
           (Inr (Response 204 Empty),
            s\<lparr>rows := filter (\<lambda>x. id_pk x \<noteq> pk) (rows s),
              storage := (case file_field r of
                            None \<Rightarrow> storage s
                          | Some l \<Rightarrow> filter (\<lambda>kv. fst kv \<noteq> l) (storage s))\<rparr>)
         \<and> get_object (snd (destroy s pk)) pk = Inl Http404
         \<and> (case file_field r of
              None \<Rightarrow> True
            | Some l \<Rightarrow> map_of (storage (snd (destroy s pk))) l = None)"
proof -
  from i have ok: "table_ok (rows s)" by (simp add: inv_alt)
  from get_object_found [OF g] have r: "r \<in> set (rows s)" "id_pk r = pk" by simp_all
  from table_ok_delete_original [OF ok r(1) orig cnt] r(2)
  have free: "\<forall>x \<in> set (rows s). referenced_file x \<noteq> Some pk" by simp
  let ?s' = "s\<lparr>rows := filter (\<lambda>x. id_pk x \<noteq> pk) (rows s),
              storage := (case file_field r of
                            None \<Rightarrow> storage s
                          | Some l \<Rightarrow> filter (\<lambda>kv. fst kv \<noteq> l) (storage s))\<rparr>"
  from destroy_original_ok [OF g orig cnt free]
  have des: "destroy s pk = (Inr (Response 204 Empty), ?s')" .
  have g2: "get_object ?s' pk = Inl Http404"
    by (rule get_object_none) simp
  have gone: "map_of (filter (\<lambda>kv. fst kv \<noteq> l) (storage s)) l = None" for l
    by (simp add: map_of_eq_None_iff image_iff)
  from des g2 gone show ?thesis by (simp split: option.splits)
qed

theorem delete_free_original_witness:
  "get_object one_file 0 = Inr original_a
   \<and> destroy one_file 0 = (Inr (Response 204 Empty), \<lparr>rows = [], storage = [], next_uuid = 2\<rparr>)
   \<and> get_object \<lparr>rows = [], storage = [], next_uuid = 2\<rparr> 0 = Inl Http404
   \<and> map_of (storage \<lparr>rows = [], storage = [], next_uuid = 2\<rparr>) (Upload 1 ''txt'') = None"
proof -
  have g: "get_object one_file 0 = Inr original_a"
    by (simp add: get_object_def one_file_def original_a_def)
  have o: "\<not> is_duplicate original_a" "reference_count original_a \<le> 1"
    by (simp_all add: original_a_def)
  from delete_free_original [OF inv_one_file g o]
  have "destroy one_file 0 = (Inr (Response 204 Empty), \<lparr>rows = [], storage = [], next_uuid = 2\<rparr>)"
    by (simp add: one_file_def original_a_def)
  with g show ?thesis by (simp add: get_object_def)
qed

end
